theory Spec2Isabelle
  imports Complex_Main
begin

section \<open>JavaScript values and string primitives\<close>

text \<open>
  Strings are lists of code units below 256.  White space is what the regular
  expression class for white space and \<open>trim\<close> recognise in that range: tab, line feed, vertical tab, form feed,
  carriage return, space and the no-break space.
\<close>

definition is_space :: "char \<Rightarrow> bool" where
  "is_space c = (c \<in> set [CHR 0x09, CHR 0x0A, CHR 0x0B, CHR 0x0C, CHR 0x0D, CHR '' '', CHR 0xA0])"

definition is_digit :: "char \<Rightarrow> bool" where
  "is_digit c = (c \<in> set ''0123456789'')"

definition is_upper :: "char \<Rightarrow> bool" where
  "is_upper c = (c \<in> set ''ABCDEFGHIJKLMNOPQRSTUVWXYZ'')"

definition is_lower :: "char \<Rightarrow> bool" where
  "is_lower c = (c \<in> set ''abcdefghijklmnopqrstuvwxyz'')"

text \<open>The character class of the bracket shorthand: word characters, white space,
  ampersand, full stop and hyphen.\<close>

definition is_company_char :: "char \<Rightarrow> bool" where
  "is_company_char c =
     (is_upper c \<or> is_lower c \<or> is_digit c \<or> c = CHR ''_'' \<or> is_space c
      \<or> c = CHR ''&'' \<or> c = CHR ''.'' \<or> c = CHR ''-'')"

definition trim :: "string \<Rightarrow> string" where
  "trim s = rev (dropWhile is_space (rev (dropWhile is_space s)))"

definition startsWith :: "string \<Rightarrow> string \<Rightarrow> bool" where
  "startsWith s p = (take (length p) s = p)"

definition endsWith :: "string \<Rightarrow> string \<Rightarrow> bool" where
  "endsWith s p = (length p \<le> length s \<and> drop (length s - length p) s = p)"

fun includes_str :: "string \<Rightarrow> string \<Rightarrow> bool" where
  "includes_str [] p = (p = [])"
| "includes_str (c # cs) p = (startsWith (c # cs) p \<or> includes_str cs p)"

text \<open>\<open>split\<close> with a one-character separator.\<close>

fun split_acc :: "char \<Rightarrow> string \<Rightarrow> string \<Rightarrow> string list" where
  "split_acc d acc [] = [rev acc]"
| "split_acc d acc (c # cs) =
     (if c = d then rev acc # split_acc d [] cs else split_acc d (c # acc) cs)"

definition split_char :: "string \<Rightarrow> char \<Rightarrow> string list" where
  "split_char s d = split_acc d [] s"

text \<open>\<open>split\<close> at a comma followed by any white space: the comma together with the
  white space after it separates.\<close>

function split_comma_acc :: "string \<Rightarrow> string \<Rightarrow> string list" where
  "split_comma_acc acc [] = [rev acc]"
| "split_comma_acc acc (c # cs) =
     (if c = CHR '','' then rev acc # split_comma_acc [] (dropWhile is_space cs)
      else split_comma_acc (c # acc) cs)"
  by pat_completeness auto
termination
  by (relation "measure (\<lambda>(acc, s). length s)")
     (auto simp: le_imp_less_Suc length_dropWhile_le)

definition split_comma :: "string \<Rightarrow> string list" where
  "split_comma s = split_comma_acc [] s"

text \<open>
  \<open>split\<close> at the boundaries between cast entries: a comma separates when the code unit
  before it exists and is not white space, and the first code unit after the white
  space that follows it is an upper-case letter.  The first argument is the code unit
  before the current position.
\<close>

function split_cast_acc :: "char option \<Rightarrow> string \<Rightarrow> string \<Rightarrow> string list" where
  "split_cast_acc prev acc [] = [rev acc]"
| "split_cast_acc prev acc (c # cs) =
     (if c = CHR '','' \<and> (case prev of None \<Rightarrow> False | Some p \<Rightarrow> \<not> is_space p)
         \<and> (case dropWhile is_space cs of [] \<Rightarrow> False | u # _ \<Rightarrow> is_upper u)
      then rev acc #
           split_cast_acc (Some (last (c # takeWhile is_space cs))) [] (dropWhile is_space cs)
      else split_cast_acc (Some c) (c # acc) cs)"
  by pat_completeness auto
termination
  by (relation "measure (\<lambda>(prev, acc, s). length s)")
     (auto simp: le_imp_less_Suc length_dropWhile_le)

definition split_cast :: "string \<Rightarrow> string list" where
  "split_cast s = split_cast_acc None [] s"

text \<open>\<open>entry.split(/ as /i)[0]\<close>: the text before the first \<open>as\<close> between two spaces,
  in either case.\<close>

definition at_as :: "string \<Rightarrow> bool" where
  "at_as s = (case s of
      a # b # c # d # _ \<Rightarrow>
        a = CHR '' '' \<and> (b = CHR ''a'' \<or> b = CHR ''A'') \<and> (c = CHR ''s'' \<or> c = CHR ''S'')
        \<and> d = CHR '' ''
    | _ \<Rightarrow> False)"

fun name_part :: "string \<Rightarrow> string" where
  "name_part [] = []"
| "name_part (c # cs) = (if at_as (c # cs) then [] else c # name_part cs)"

text \<open>
  Numbers are the special values and the finite ones; a finite number is kept as the
  rational value it has.  \<open>parseFloat\<close> below yields the values of the binary64 format
  only.
\<close>

datatype jsnum = NaN | PosInf | NegInf | Fin rat

datatype json =
    JNull
  | JBool bool
  | JNum jsnum
  | JStr string
  | JArr "json list"
  | JObj "(string \<times> json) list"

datatype js_error = SyntaxError | TypeError | RangeError

fun truthy :: "json \<Rightarrow> bool" where
  "truthy JNull = False"
| "truthy (JBool b) = b"
| "truthy (JNum n) = (n \<noteq> NaN \<and> n \<noteq> Fin 0)"
| "truthy (JStr s) = (s \<noteq> [])"
| "truthy (JArr xs) = True"
| "truthy (JObj kvs) = True"

text \<open>Reading a property of a value that is not \<open>null\<close>: only objects parsed from
  JSON carry \<open>name\<close> or \<open>id\<close>; \<open>None\<close> is \<open>undefined\<close>.\<close>

fun get_prop :: "json \<Rightarrow> string \<Rightarrow> json option" where
  "get_prop (JObj kvs) k = map_of kvs k"
| "get_prop v k = None"

text \<open>\<open>a || b\<close> with \<open>a\<close> a property read.\<close>

definition or_else :: "json option \<Rightarrow> json \<Rightarrow> json" where
  "or_else a b = (case a of None \<Rightarrow> b | Some v \<Rightarrow> if truthy v then v else b)"

text \<open>The built-ins the parsers call are parameters: \<open>JSON.parse\<close> (\<open>None\<close> when it
  throws) and the rendering of a number by \<open>String\<close>.\<close>

record builtins =
  JSON_parse :: "string \<Rightarrow> json option"
  Number_toString :: "jsnum \<Rightarrow> string"

definition try_catch :: "'e + 'a \<Rightarrow> ('e \<Rightarrow> 'e + 'a) \<Rightarrow> 'e + 'a" where
  "try_catch body handler = (case body of Inl e \<Rightarrow> handler e | Inr v \<Rightarrow> Inr v)"

fun map_err :: "('a \<Rightarrow> 'e + 'b) \<Rightarrow> 'a list \<Rightarrow> 'e + 'b list" where
  "map_err f [] = Inr []"
| "map_err f (x # xs) =
     (case f x of
        Inl e \<Rightarrow> Inl e
      | Inr y \<Rightarrow> (case map_err f xs of Inl e \<Rightarrow> Inl e | Inr ys \<Rightarrow> Inr (y # ys)))"

datatype field = Undefined | Null | Str string

section \<open>Monetary fields\<close>

text \<open>
  The value of a decimal numeral is rounded to the binary64 format the way the
  language does it: to the nearest multiple of the weight of the last of 53
  significant bits (of \<open>2\<close> to the power \<open>- 1074\<close> where the number is subnormal), a tie
  going to the even multiple; a result of \<open>2 ^ 1024\<close> or more is infinite (\<open>None\<close>).
  The value is given as the quotient \<open>p / q\<close> of two natural numbers.  \<open>bits\<close> is the
  number of binary digits of a natural number, \<open>exponent2 p q\<close> the exponent of the
  highest power of two that does not exceed \<open>p / q\<close>, and \<open>round_even a b\<close> the integer
  nearest to \<open>a / b\<close>.
\<close>

fun bits :: "nat \<Rightarrow> nat" where
  "bits n = (if n = 0 then 0 else Suc (bits (n div 2)))"

declare bits.simps [simp del]

definition exponent2 :: "nat \<Rightarrow> nat \<Rightarrow> int" where
  "exponent2 p q =
     (let d = int (bits p) - int (bits q)
      in if (if 0 \<le> d then 2 ^ nat d * q \<le> p else q \<le> 2 ^ nat (- d) * p) then d else d - 1)"

definition round_even :: "nat \<Rightarrow> nat \<Rightarrow> nat" where
  "round_even a b =
     (let k = a div b; r = a mod b
      in if 2 * r < b then k else if b < 2 * r then k + 1 else if even k then k else k + 1)"

definition binary64 :: "nat \<Rightarrow> nat \<Rightarrow> rat option" where
  "binary64 p q =
     (if p = 0 then Some 0
      else
        (let s = max (exponent2 p q) (- 1022) - 52;
             n = (if 0 \<le> s then round_even p (q * 2 ^ nat s)
                  else round_even (p * 2 ^ nat (- s)) q);
             v = (if 0 \<le> s then rat_of_nat n * 2 ^ nat s else rat_of_nat n / 2 ^ nat (- s))
         in if 2 ^ 1024 \<le> v then None else Some v))"

text \<open>
  \<open>parseFloat\<close>: leading white space is skipped, then the longest prefix that is a
  decimal literal is read: an optional sign, then \<open>Infinity\<close> or digits with an
  optional fraction and an optional exponent.  No such prefix gives \<open>NaN\<close>.  The
  result is the binary64 number nearest to the literal, so a literal as large as
  \<open>1e400\<close> reads as \<open>Infinity\<close>.
\<close>

definition digits_val :: "string \<Rightarrow> nat" where
  "digits_val ds = foldl (\<lambda>n c. 10 * n + (of_char c - 48)) 0 ds"

definition read_sign :: "string \<Rightarrow> bool \<times> string" where
  "read_sign s = (case s of
      [] \<Rightarrow> (False, [])
    | c # r \<Rightarrow> if c = CHR ''-'' then (True, r) else if c = CHR ''+'' then (False, r)
              else (False, s))"

definition read_exponent :: "string \<Rightarrow> bool \<times> nat" where
  "read_exponent s = (case s of
      [] \<Rightarrow> (False, 0)
    | c # r \<Rightarrow>
        if c = CHR ''e'' \<or> c = CHR ''E'' then
          (let (neg, r') = read_sign r; ds = takeWhile is_digit r'
           in if ds = [] then (False, 0) else (neg, digits_val ds))
        else (False, 0))"

definition parseFloat :: "string \<Rightarrow> jsnum" where
  "parseFloat s =
     (let (neg, u) = read_sign (dropWhile is_space s)
      in if startsWith u ''Infinity'' then (if neg then NegInf else PosInf)
         else
           (let ip = takeWhile is_digit u; r1 = dropWhile is_digit u;
                (fp, r2) = (case r1 of
                    [] \<Rightarrow> ([], [])
                  | c # r \<Rightarrow> if c = CHR ''.'' then (takeWhile is_digit r, dropWhile is_digit r)
                            else ([], r1))
            in if ip = [] \<and> fp = [] then NaN
               else
                 (let (eneg, ex) = read_exponent r2;
                      p = digits_val (ip @ fp) * (if eneg then 1 else 10 ^ ex);
                      q = 10 ^ length fp * (if eneg then 10 ^ ex else 1)
                  in case binary64 p q of
                       None \<Rightarrow> if neg then NegInf else PosInf
                     | Some v \<Rightarrow> Fin (if neg then - v else v))))"

text \<open>\<open>x || 0\<close> on numbers: \<open>NaN\<close> and zero are falsy.\<close>

definition or_zero :: "jsnum \<Rightarrow> jsnum" where
  "or_zero x = (if x = NaN \<or> x = Fin 0 then Fin 0 else x)"

text \<open>\<open>parseMoneyValue\<close> of \<open>StreamProcessor.transformRow\<close>; \<open>None\<close> is a column that
  the row does not have.\<close>

definition parseMoneyValue :: "string option \<Rightarrow> jsnum" where
  "parseMoneyValue v = (case v of
      None \<Rightarrow> Fin 0
    | Some s \<Rightarrow> if s = [] then Fin 0 else or_zero (parseFloat s))"

text \<open>\<open>Math.round\<close> (halves go up) and \<open>BigInt\<close> (a \<open>RangeError\<close> unless the number
  is an integer).\<close>

definition Math_round :: "jsnum \<Rightarrow> jsnum" where
  "Math_round x = (case x of Fin q \<Rightarrow> Fin (of_int \<lfloor>q + 1 / 2\<rfloor>) | _ \<Rightarrow> x)"

definition BigInt :: "jsnum \<Rightarrow> js_error + int" where
  "BigInt x = (case x of
      Fin q \<Rightarrow> if of_int \<lfloor>q\<rfloor> = q then Inr \<lfloor>q\<rfloor> else Inl RangeError
    | _ \<Rightarrow> Inl RangeError)"

text \<open>The expression \<open>BigInt(Math.round(parseFloat(row.revenue) || 0))\<close> of
  \<open>CsvService.transformRow\<close>; an absent column reads as \<open>undefined\<close>, which
  \<open>parseFloat\<close> turns into \<open>NaN\<close>.\<close>

definition csv_money :: "string option \<Rightarrow> js_error + int" where
  "csv_money v = BigInt (Math_round (or_zero (case v of None \<Rightarrow> NaN | Some s \<Rightarrow> parseFloat s)))"

section \<open>Tolerant field parsers (utils/parser)\<close>

text \<open>
  The declared input type is a string, \<open>null\<close> or \<open>undefined\<close>; the branches that
  test for an array or object input are therefore not taken.  A company has a \<open>name\<close>
  and may have an \<open>id\<close> key (\<open>None\<close>: the object has no such key); both hold whatever
  value the JSON text supplied.
\<close>

record company =
  name :: json
  company_id :: "json option"

record cast_member =
  cast_name :: json

definition named :: "string \<Rightarrow> company" where
  "named n = \<lparr>name = JStr (trim n), company_id = None\<rparr>"

text \<open>The bracket shorthand: an opening bracket, one or more characters of the class,
  a closing bracket, and nothing else.\<close>

definition simple_company :: "string \<Rightarrow> string option" where
  "simple_company s = (case s of
      [] \<Rightarrow> None
    | c # r \<Rightarrow>
        if c = CHR ''['' \<and> r \<noteq> [] \<and> last r = CHR '']'' \<and> butlast r \<noteq> []
           \<and> list_all is_company_char (butlast r)
        then Some (butlast r) else None)"

text \<open>The callback mapped over a parsed array; reading \<open>c.name\<close> of \<open>null\<close> throws.\<close>

definition company_of :: "json \<Rightarrow> js_error + company" where
  "company_of c = (case c of
      JStr s \<Rightarrow> Inr \<lparr>name = JStr s, company_id = None\<rparr>
    | JNull \<Rightarrow> Inl TypeError
    | _ \<Rightarrow> Inr \<lparr>name = or_else (get_prop c ''name'') (JStr ''Unknown''),
               company_id = Some (or_else (get_prop c ''id'') JNull)\<rparr>)"

text \<open>The inner \<open>try\<close>: \<open>Inr None\<close> when the parsed value is not an array.\<close>

definition pc_json :: "builtins \<Rightarrow> string \<Rightarrow> js_error + company list option" where
  "pc_json B s = (case JSON_parse B s of
      None \<Rightarrow> Inl SyntaxError
    | Some v \<Rightarrow> (case v of
        JArr xs \<Rightarrow> (case map_err company_of xs of Inl e \<Rightarrow> Inl e | Inr r \<Rightarrow> Inr (Some r))
      | _ \<Rightarrow> Inr None))"

definition pc_delimited :: "string \<Rightarrow> company list" where
  "pc_delimited s =
     (if includes_str s ''|'' then map named (split_char s (CHR ''|''))
      else map named (filter (\<lambda>x. x \<noteq> []) (split_comma s)))"

definition pc_primary :: "builtins \<Rightarrow> string \<Rightarrow> js_error + company list" where
  "pc_primary B s =
     (if startsWith s ''['' \<and> endsWith s '']'' then
        (case simple_company s of
           Some inner \<Rightarrow> Inr [named inner]
         | None \<Rightarrow>
             (case try_catch (pc_json B s) (\<lambda>e. Inr None) of
                Inr (Some r) \<Rightarrow> Inr r
              | _ \<Rightarrow> Inr (pc_delimited s)))
      else Inr (pc_delimited s))"

definition pc_backup :: "string \<Rightarrow> js_error + company list" where
  "pc_backup s =
     (if startsWith s ''['' \<and> endsWith s '']'' then
        Inr [named (take (length s - 2) (drop 1 s))]
      else if includes_str s '','' then Inr (map named (filter (\<lambda>x. x \<noteq> []) (split_comma s)))
      else if includes_str s ''|'' then Inr (map named (split_char s (CHR ''|'')))
      else if includes_str s '';'' then Inr (map named (split_char s (CHR '';'')))
      else Inr [named s])"

text \<open>The two nested \<open>try\<close> statements of \<open>parseProductionCompanies\<close>, given the
  outcomes of the first strategy and of the backup: when both throw, the innermost
  handler returns the input as the one name.\<close>

definition pc_guard ::
  "js_error + company list \<Rightarrow> js_error + company list \<Rightarrow> string \<Rightarrow> js_error + company list" where
  "pc_guard primary backup s =
     try_catch primary
       (\<lambda>e. try_catch backup (\<lambda>e'. Inr [\<lparr>name = JStr s, company_id = None\<rparr>]))"

definition parseProductionCompanies :: "builtins \<Rightarrow> field \<Rightarrow> js_error + company list" where
  "parseProductionCompanies B input = (case input of
      Undefined \<Rightarrow> Inr []
    | Null \<Rightarrow> Inr []
    | Str s \<Rightarrow>
        if s = [] then Inr [] else pc_guard (pc_primary B s) (pc_backup s) s)"

text \<open>The callback of the cast parsers: a string is kept, an object or array gives its
  truthy \<open>name\<close> or a placeholder, anything else is rendered by \<open>String\<close>.\<close>

definition actor_name :: "builtins \<Rightarrow> json \<Rightarrow> json" where
  "actor_name B a = (case a of
      JStr s \<Rightarrow> JStr s
    | JObj kvs \<Rightarrow> or_else (get_prop a ''name'') (JStr ''Unknown Actor'')
    | JArr xs \<Rightarrow> or_else (get_prop a ''name'') (JStr ''Unknown Actor'')
    | JNull \<Rightarrow> JStr ''null''
    | JBool b \<Rightarrow> JStr (if b then ''true'' else ''false'')
    | JNum n \<Rightarrow> JStr (Number_toString B n))"

definition cn_json :: "builtins \<Rightarrow> string \<Rightarrow> js_error + json list option" where
  "cn_json B s = (case JSON_parse B s of
      None \<Rightarrow> Inl SyntaxError
    | Some v \<Rightarrow> (case v of JArr xs \<Rightarrow> Inr (Some (map (actor_name B) xs)) | _ \<Rightarrow> Inr None))"

definition cn_text :: "string \<Rightarrow> string list" where
  "cn_text s =
     (if includes_str s '' as '' then map (\<lambda>entry. trim (name_part entry)) (split_cast s)
      else map trim (filter (\<lambda>x. x \<noteq> []) (split_comma s)))"

definition cn_primary :: "builtins \<Rightarrow> string \<Rightarrow> js_error + json list" where
  "cn_primary B s =
     (case (if startsWith s ''['' \<and> endsWith s '']''
            then try_catch (cn_json B s) (\<lambda>e. Inr None) else Inr None) of
        Inr (Some r) \<Rightarrow> Inr r
      | _ \<Rightarrow> Inr (map JStr (cn_text s)))"

definition cn_backup :: "string \<Rightarrow> js_error + json list" where
  "cn_backup s = Inr (map (\<lambda>n. JStr (trim n)) (filter (\<lambda>x. x \<noteq> []) (split_comma s)))"

definition parseCastNames :: "builtins \<Rightarrow> field \<Rightarrow> js_error + json list" where
  "parseCastNames B input = (case input of
      Undefined \<Rightarrow> Inr []
    | Null \<Rightarrow> Inr []
    | Str s \<Rightarrow>
        if s = [] then Inr []
        else try_catch (cn_primary B s) (\<lambda>e. try_catch (cn_backup s) (\<lambda>e'. Inr [])))"

text \<open>\<open>parseCast\<close> has the control flow of \<open>parseCastNames\<close> and wraps each name in an
  object.\<close>

definition pcast_json :: "builtins \<Rightarrow> string \<Rightarrow> js_error + cast_member list option" where
  "pcast_json B s = (case JSON_parse B s of
      None \<Rightarrow> Inl SyntaxError
    | Some v \<Rightarrow> (case v of
        JArr xs \<Rightarrow> Inr (Some (map (\<lambda>a. \<lparr>cast_name = actor_name B a\<rparr>) xs))
      | _ \<Rightarrow> Inr None))"

definition pcast_primary :: "builtins \<Rightarrow> string \<Rightarrow> js_error + cast_member list" where
  "pcast_primary B s =
     (case (if startsWith s ''['' \<and> endsWith s '']''
            then try_catch (pcast_json B s) (\<lambda>e. Inr None) else Inr None) of
        Inr (Some r) \<Rightarrow> Inr r
      | _ \<Rightarrow> Inr (map (\<lambda>n. \<lparr>cast_name = JStr n\<rparr>) (cn_text s)))"

definition pcast_backup :: "string \<Rightarrow> js_error + cast_member list" where
  "pcast_backup s =
     Inr (map (\<lambda>n. \<lparr>cast_name = JStr (trim n)\<rparr>) (filter (\<lambda>x. x \<noteq> []) (split_comma s)))"

definition parseCast :: "builtins \<Rightarrow> field \<Rightarrow> js_error + cast_member list" where
  "parseCast B input = (case input of
      Undefined \<Rightarrow> Inr []
    | Null \<Rightarrow> Inr []
    | Str s \<Rightarrow>
        if s = [] then Inr []
        else try_catch (pcast_primary B s) (\<lambda>e. try_catch (pcast_backup s) (\<lambda>e'. Inr [])))"

section \<open>Header validation (utils/validator)\<close>

definition REQUIRED_HEADERS :: "string list" where
  "REQUIRED_HEADERS =
     [''id'', ''title'', ''vote_average'', ''vote_count'', ''status'', ''release_date'',
      ''revenue'', ''runtime'', ''budget'', ''imdb_id'', ''original_language'',
      ''original_title'', ''overview'', ''popularity'', ''tagline'', ''genres'',
      ''production_companies'', ''production_countries'', ''spoken_languages'', ''cast'',
      ''director'', ''director_of_photography'', ''writers'', ''producers'',
      ''music_composer'', ''imdb_rating'', ''imdb_votes'', ''poster_path'']"

text \<open>
  \<open>validateCsvHeaders\<close> collects the chunks of the input stream, which is taken to
  end, and pipes them through the decoder of the CSV library, a transform stream
  that hands out records.  The decoder is a parameter: from its state and a chunk it
  delivers records and possibly an error, and at the end of the input it delivers what
  is left over.  The records of one call are pushed before its error is reported.
\<close>

record decoded =
  records :: "string list list"
  failure :: "string option"

record 's decoder =
  initial :: 's
  parse_chunk :: "'s \<Rightarrow> string \<Rightarrow> decoded \<times> 's"
  parse_end :: "'s \<Rightarrow> decoded"

text \<open>
  The three messages of the validator are the empty-file notice, the
  empty-or-malformed notice, and the notice that lists the missing columns (the source
  joins them with a comma and a space after a fixed prefix).
\<close>

datatype header_msg = EmptyFile | EmptyOrMalformed | MissingColumns "string list"

datatype validation_error = ParseFailed string

text \<open>
  Between the decoder and the handlers lies the read buffer of the transform stream.
  It follows the stream contract of the platform:
  \<^item> the records a chunk yields are pushed to the buffer at once; the buffer of a stream
    of objects has the high-water mark 16;
  \<^item> when a chunk has yielded records and the buffer then holds 16 records or more, the
    completion of that write is held back until the reading side asks for more, and no
    later chunk reaches the decoder before that;
  \<^item> \<open>read\<close> hands out one record, and it asks for more only when fewer than 16
    records are left after it, or when the buffer is empty;
  \<^item> the chunks are all buffered before they are piped, so they reach the decoder one
    after the other, with no \<open>readable\<close> event in between, until a write is held back
    or the chunks are used up;
  \<^item> the \<open>readable\<close> event fires after records have been pushed and again at the end
    of the input; the \<open>end\<close> event fires once the buffer has been read to its end
    after the end of the input.
\<close>

definition highWaterMark :: nat where
  "highWaterMark = 16"

record 's parser =
  decoding :: 's
  buffered :: "string list list"
  held :: bool

text \<open>The variables the three handlers close over.\<close>

record listener =
  headers :: "string list"
  isFirstLine :: bool
  dataRead :: bool

text \<open>One chunk reaches the decoder: the result is the error it reports, if any, and the
  stream with the records pushed.\<close>

definition write_chunk :: "'s decoder \<Rightarrow> string \<Rightarrow> 's parser \<Rightarrow> string option \<times> 's parser" where
  "write_chunk D c P =
     (let (d, s) = parse_chunk D (decoding P) c; b = buffered P @ records d
      in (failure d,
          P\<lparr>decoding := s, buffered := b,
            held := (records d \<noteq> [] \<and> \<not> length b < highWaterMark)\<rparr>))"

text \<open>\<open>parser.read()\<close>: \<open>None\<close> is \<open>null\<close>.\<close>

definition read :: "'s parser \<Rightarrow> string list option \<times> 's parser" where
  "read P =
     (case buffered P of
        [] \<Rightarrow> (None, P\<lparr>held := False\<rparr>)
      | r # rest \<Rightarrow>
          (Some r, P\<lparr>buffered := rest, held := (held P \<and> \<not> length rest < highWaterMark)\<rparr>))"

text \<open>
  The \<open>readable\<close> handler (lines 1113 to 1123): it reads until \<open>read\<close> returns
  \<open>null\<close>, but it leaves the loop at the first record it ever sees, with the other
  records still in the buffer.
\<close>

function on_readable :: "listener \<Rightarrow> 's parser \<Rightarrow> listener \<times> 's parser" where
  "on_readable L P =
     (case read P of
        (None, P1) \<Rightarrow> (L, P1)
      | (Some r, P1) \<Rightarrow>
          if isFirstLine L
          then (L\<lparr>headers := r, isFirstLine := False, dataRead := True\<rparr>, P1)
          else on_readable L P1)"
  by pat_completeness auto
termination
  by (relation "measure (\<lambda>(L, P). length (buffered P))")
     (auto simp: read_def split: list.splits)

declare on_readable.simps [simp del]

text \<open>The \<open>end\<close> handler (lines 1130 to 1146): the value the promise is resolved
  with.\<close>

definition on_end :: "listener \<Rightarrow> header_msg option" where
  "on_end L =
     (if \<not> dataRead L \<or> headers L = [] then Some EmptyOrMalformed
      else
        (let missingHeaders = filter (\<lambda>header. header \<notin> set (headers L)) REQUIRED_HEADERS
         in if missingHeaders \<noteq> [] then Some (MissingColumns missingHeaders) else None))"

text \<open>
  \<open>bufferStream.pipe(parser)\<close>: the chunks on their way through the decoder.  An error
  of the decoder reaches the \<open>error\<close> handler, which rejects the promise.  A write that
  is held back leaves the \<open>readable\<close> handler to run; when the write is still held
  back after that, nothing asks for more records, no further event fires, and the
  promise stays pending for ever (\<open>None\<close>).  At the end of the input what is left in
  the decoder is pushed, the handler runs for the event of the earlier pushes and for
  the event of the end, and the \<open>end\<close> event fires.
\<close>

fun pipe_chunks ::
  "'s decoder \<Rightarrow> string list \<Rightarrow> listener \<Rightarrow> 's parser
     \<Rightarrow> (validation_error + header_msg option) option" where
  "pipe_chunks D [] L P =
     (let d = parse_end D (decoding P)
      in case failure d of
           Some e \<Rightarrow> Some (Inl (ParseFailed e))
         | None \<Rightarrow>
             (let (L1, P1) = on_readable L (P\<lparr>buffered := buffered P @ records d\<rparr>);
                  (L2, P2) = on_readable L1 P1
              in if buffered P2 = [] then Some (Inr (on_end L2)) else None))"
| "pipe_chunks D (c # cs) L P =
     (case write_chunk D c P of
        (Some e, P1) \<Rightarrow> Some (Inl (ParseFailed e))
      | (None, P1) \<Rightarrow>
          if held P1 then
            (let (L1, P2) = on_readable L P1
             in if held P2 then None else pipe_chunks D cs L1 P2)
          else pipe_chunks D cs L P1)"

text \<open>
  \<open>validateCsvHeaders\<close> on the chunks the stream delivered before it ended: the
  promise is rejected (left), resolved with a message or \<open>null\<close> (right), or never
  settled (\<open>None\<close>).  Pushing an empty chunk to the buffering stream adds nothing to
  it.
\<close>

definition validateCsvHeaders ::
  "'s decoder \<Rightarrow> string list \<Rightarrow> (validation_error + header_msg option) option" where
  "validateCsvHeaders D chunks =
     (if chunks = [] then Some (Inr (Some EmptyFile))
      else pipe_chunks D (filter (\<lambda>chunk. chunk \<noteq> []) chunks)
             \<lparr>headers = [], isFirstLine = True, dataRead = False\<rparr>
             \<lparr>decoding = initial D, buffered = [], held = False\<rparr>)"

text \<open>
  What the decoder reports for the whole stream, chunk after chunk: the records it
  delivers up to its first error, and that error.  \<open>header_verdict\<close> is the answer of
  the \<open>end\<close> handler as a function of the records read, and a listener is \<open>tidy\<close>
  when its two flags agree.
\<close>

fun decode_from :: "'s decoder \<Rightarrow> 's \<Rightarrow> string list \<Rightarrow> decoded" where
  "decode_from D s [] = parse_end D s"
| "decode_from D s (c # cs) =
     (let (d, s1) = parse_chunk D s c
      in case failure d of
           Some e \<Rightarrow> d
         | None \<Rightarrow>
             (let r = decode_from D s1 cs
              in \<lparr>records = records d @ records r, failure = failure r\<rparr>))"

definition decode_stream :: "'s decoder \<Rightarrow> string list \<Rightarrow> decoded" where
  "decode_stream D chunks = decode_from D (initial D) (filter (\<lambda>chunk. chunk \<noteq> []) chunks)"

definition header_verdict :: "string list list \<Rightarrow> header_msg option" where
  "header_verdict rows =
     (case rows of
        [] \<Rightarrow> Some EmptyOrMalformed
      | hs # _ \<Rightarrow>
          if hs = [] then Some EmptyOrMalformed
          else if filter (\<lambda>h. h \<notin> set hs) REQUIRED_HEADERS \<noteq> []
          then Some (MissingColumns (filter (\<lambda>h. h \<notin> set hs) REQUIRED_HEADERS))
          else None)"

definition tidy :: "listener \<Rightarrow> bool" where
  "tidy L = (isFirstLine L = (\<not> dataRead L))"

section \<open>The streaming import (src/utils/stream-processor.ts)\<close>

text \<open>
  The class \<open>StreamProcessor\<close> is embedded as a record of its mutable fields together
  with functions that return the updated record.  Its collaborators are parameters:
  the storage \<open>upsert\<close> (which may reject with a message), the row transformer
  (which may throw) and the batch size the constructor stored (the configured value,
  or 1000 when that is falsy).  The keep-alive timer, the logger and the closing of
  the storage connection do not touch the fields below and are left out.

  Texts of error rows are kept as a datatype; the source renders them with template
  strings (a fixed notice for a missing required field, the message of an exception
  thrown while transforming, and a notice that names the record id followed by the
  message of the last failed attempt).
\<close>

subsection \<open>Data\<close>

type_synonym raw_row = "string \<Rightarrow> string option"

datatype err_text =
    MissingRequired
  | TransformFailed string
  | RecordFailed string string

record error_row =
  row :: int
  error :: err_text

text \<open>
  What the processor does to the outside world, in order: the snapshot of a batch by a
  call of \<open>processBatch\<close> (with the number of records taken), one storage upsert for a
  record id (with the rejection message, if any), and one timer wait in milliseconds
  between two attempts.
\<close>

datatype effect =
    Flush nat
  | Upsert string "string option"
  | Sleep nat

record ('m, 'db) env =
  batchSize :: int
  transformRow :: "raw_row \<Rightarrow> string + 'm"
  item_id :: "'m \<Rightarrow> string"
  upsert :: "'db \<Rightarrow> 'm \<Rightarrow> string option \<times> 'db"

text \<open>
  \<open>batchToProcess\<close> and \<open>insertedCount\<close> are the locals of the one call of
  \<open>processBatch\<close> that holds the \<open>isProcessing\<close> flag; \<open>waiting\<close> counts the calls
  that found the flag set and are polling it; \<open>rowNumber\<close> is the counter closed over
  by the transformer.
\<close>

record ('m, 'db) processor =
  processedCount :: nat
  errorRows :: "error_row list"
  currentBatch :: "'m list"
  isProcessing :: bool
  rowNumber :: nat
  batchToProcess :: "'m list"
  insertedCount :: nat
  waiting :: nat
  store :: 'db
  effects :: "effect list"

record summary =
  success :: bool
  count :: nat
  errorCount :: nat
  errors :: "error_row list"

datatype stream_end = Finished | Aborted string string

datatype event = Row raw_row | Commit | Settle | Wake

definition init :: "'db \<Rightarrow> ('m, 'db) processor" where
  "init d = \<lparr>processedCount = 0, errorRows = [], currentBatch = [], isProcessing = False,
     rowNumber = 0, batchToProcess = [], insertedCount = 0, waiting = 0, store = d,
     effects = []\<rparr>"

subsection \<open>Committing one batch\<close>

definition MAX_RETRIES :: nat where
  "MAX_RETRIES = 3"

text \<open>
  The inner \<open>while (!success && retries < MAX_RETRIES)\<close> loop for one record
  (\<open>processBatch\<close>, lines 328 to 364).  A successful upsert leaves the loop; a
  rejected one increments \<open>retries\<close> and then either records the error row (last
  attempt) or waits \<open>500 * retries\<close> milliseconds.
\<close>

function retry_loop ::
  "('m, 'db) env \<Rightarrow> 'm \<Rightarrow> nat \<Rightarrow> ('m, 'db) processor \<Rightarrow> ('m, 'db) processor" where
  "retry_loop E item retries P =
     (if retries < MAX_RETRIES then
        (case upsert E (store P) item of
           (None, d) \<Rightarrow>
             P\<lparr>store := d, insertedCount := insertedCount P + 1,
               effects := effects P @ [Upsert (item_id E item) None]\<rparr>
         | (Some msg, d) \<Rightarrow>
             (let P1 = P\<lparr>store := d,
                         effects := effects P @ [Upsert (item_id E item) (Some msg)]\<rparr>
              in if retries + 1 \<ge> MAX_RETRIES then
                   retry_loop E item (retries + 1)
                     (P1\<lparr>errorRows := errorRows P1 @
                        [\<lparr>row = - 1, error = RecordFailed (item_id E item) msg\<rparr>]\<rparr>)
                 else
                   retry_loop E item (retries + 1)
                     (P1\<lparr>effects := effects P1 @ [Sleep (500 * (retries + 1))]\<rparr>)))
      else P)"
  by pat_completeness auto
termination
  by (relation "measure (\<lambda>(E, item, retries, P). MAX_RETRIES - retries)") auto

declare retry_loop.simps [simp del]

text \<open>The \<open>for (const item of processedBatch)\<close> loop.\<close>

fun commit_all ::
  "('m, 'db) env \<Rightarrow> 'm list \<Rightarrow> ('m, 'db) processor \<Rightarrow> ('m, 'db) processor" where
  "commit_all E [] P = P"
| "commit_all E (item # rest) P = commit_all E rest (retry_loop E item 0 P)"

text \<open>
  A call of \<open>processBatch\<close> runs without suspension up to its first \<open>await\<close> (lines
  289 to 302).  When the flag is set it starts polling; otherwise it takes the flag,
  copies \<open>currentBatch\<close>, empties it, and returns at once when the copy is empty.
  The transformer does not await the call, so the rows that follow reach the
  transformer while the call is still committing.
\<close>

definition start_flush :: "('m, 'db) processor \<Rightarrow> ('m, 'db) processor" where
  "start_flush P =
     (if currentBatch P = [] then P
      else P\<lparr>isProcessing := True, batchToProcess := currentBatch P, currentBatch := [],
             insertedCount := 0,
             effects := effects P @ [Flush (length (currentBatch P))]\<rparr>)"

definition processBatch :: "('m, 'db) processor \<Rightarrow> ('m, 'db) processor" where
  "processBatch P = (if isProcessing P then P\<lparr>waiting := waiting P + 1\<rparr> else start_flush P)"

text \<open>The end of the running call (lines 367 to 385): the committed count grows by
  the inserted count and the flag is released.\<close>

definition complete :: "('m, 'db) processor \<Rightarrow> ('m, 'db) processor" where
  "complete P = P\<lparr>processedCount := processedCount P + insertedCount P,
                  batchToProcess := [], isProcessing := False\<rparr>"

text \<open>One iteration of the \<open>for\<close> loop of the running call.\<close>

definition commit_next :: "('m, 'db) env \<Rightarrow> ('m, 'db) processor \<Rightarrow> ('m, 'db) processor" where
  "commit_next E P =
     (if \<not> isProcessing P then P
      else case batchToProcess P of
             [] \<Rightarrow> complete P
           | item # rest \<Rightarrow>
               (let P1 = retry_loop E item 0 (P\<lparr>batchToProcess := rest\<rparr>)
                in if rest = [] then complete P1 else P1))"

text \<open>The running call carried through to its end.\<close>

definition settle :: "('m, 'db) env \<Rightarrow> ('m, 'db) processor \<Rightarrow> ('m, 'db) processor" where
  "settle E P =
     (if \<not> isProcessing P then P else complete (commit_all E (batchToProcess P) P))"

text \<open>A polling call wakes up: it goes back to sleep while the flag is set.\<close>

definition wake :: "('m, 'db) processor \<Rightarrow> ('m, 'db) processor" where
  "wake P =
     (if waiting P = 0 \<or> isProcessing P then P
      else start_flush (P\<lparr>waiting := waiting P - 1\<rparr>))"

subsection \<open>The transformer\<close>

text \<open>
  The \<open>transform\<close> callback of \<open>createTransformer\<close> (lines 236 to 282) for one row
  of the decoder.  A column the row does not have reads as \<open>undefined\<close> (\<open>None\<close>);
  \<open>undefined\<close> and the empty string are the falsy values a column can have.
\<close>

definition falsy :: "string option \<Rightarrow> bool" where
  "falsy v = (case v of None \<Rightarrow> True | Some s \<Rightarrow> s = [])"

definition transform ::
  "('m, 'db) env \<Rightarrow> raw_row \<Rightarrow> ('m, 'db) processor \<Rightarrow> ('m, 'db) processor" where
  "transform E r P =
     (let n = rowNumber P + 1; P1 = P\<lparr>rowNumber := n\<rparr>
      in if falsy (r ''id'') \<or> falsy (r ''title'') then
           P1\<lparr>errorRows := errorRows P1 @ [\<lparr>row = int n, error = MissingRequired\<rparr>]\<rparr>
         else
           (case transformRow E r of
              Inl msg \<Rightarrow>
                P1\<lparr>errorRows := errorRows P1 @ [\<lparr>row = int n, error = TransformFailed msg\<rparr>]\<rparr>
            | Inr m \<Rightarrow>
                (let P2 = P1\<lparr>currentBatch := currentBatch P1 @ [m]\<rparr>
                 in if int (length (currentBatch P2)) \<ge> batchSize E then processBatch P2
                    else P2)))"

subsection \<open>The pipeline\<close>

text \<open>
  The transformer, the running commit and the polling calls interleave on the event
  loop.  The order is an input: a list of events, each a row reaching the transformer,
  one more record committed by the running call, the running call reaching its end, or
  a polling call waking up.
\<close>

fun step :: "('m, 'db) env \<Rightarrow> event \<Rightarrow> ('m, 'db) processor \<Rightarrow> ('m, 'db) processor" where
  "step E (Row r) P = transform E r P"
| "step E Commit P = commit_next E P"
| "step E Settle P = settle E P"
| "step E Wake P = wake P"

fun run :: "('m, 'db) env \<Rightarrow> event list \<Rightarrow> ('m, 'db) processor \<Rightarrow> ('m, 'db) processor" where
  "run E [] P = P"
| "run E (e # es) P = run E es (step E e P)"

text \<open>
  After the pipeline has ended no row arrives any more (lines 103 to 109).  The
  awaited last call of \<open>processBatch\<close> waits for the running call, then the
  accumulated records are taken in one snapshot (by this call or by a polling one,
  with the same result) and committed; \<open>waitForProcessing\<close> returns once the flag is
  clear and the batch empty.  Every storage call is taken to return, so the running
  call ends and the polling loops are left.
\<close>

definition finish :: "('m, 'db) env \<Rightarrow> ('m, 'db) processor \<Rightarrow> ('m, 'db) processor" where
  "finish E P =
     (let P1 = (if currentBatch P \<noteq> [] then settle E (start_flush (settle E P)) else P)
      in settle E P1)"

definition summarise :: "('m, 'db) processor \<Rightarrow> summary" where
  "summarise P = \<lparr>success = True, count = processedCount P,
     errorCount = length (errorRows P), errors = take 10 (errorRows P)\<rparr>"

text \<open>
  \<open>processStream\<close> (lines 53 to 144): the events up to the end of the pipeline, then
  how the pipeline ended.  A rejected pipeline carries an error code and a message;
  the result is the rethrown error (left) or the summary (right), given here together
  with the final state of the processor.  The elapsed time of the summary is
  wall-clock time and is left out.
\<close>

definition processStream ::
  "('m, 'db) env \<Rightarrow> event list \<Rightarrow> stream_end \<Rightarrow> ('m, 'db) processor
     \<Rightarrow> (string \<times> string) + summary \<times> ('m, 'db) processor" where
  "processStream E evs fin P0 =
     (let P = run E evs P0
      in case fin of
           Finished \<Rightarrow> Inr (summarise (finish E P), finish E P)
         | Aborted code msg \<Rightarrow>
             if code = ''ERR_STREAM_PREMATURE_CLOSE'' \<and> processedCount P > 0
             then Inr (summarise (finish E P), finish E P)
             else Inl (code, msg))"

subsection \<open>Reading the effects\<close>

text \<open>The sizes of the batches taken, in order, and the number of upsert attempts.\<close>

fun flushes :: "effect list \<Rightarrow> nat list" where
  "flushes [] = []"
| "flushes (Flush n # es) = n # flushes es"
| "flushes (Upsert i r # es) = flushes es"
| "flushes (Sleep n # es) = flushes es"

fun upserts :: "effect list \<Rightarrow> nat" where
  "upserts [] = 0"
| "upserts (Upsert i r # es) = Suc (upserts es)"
| "upserts (Flush n # es) = upserts es"
| "upserts (Sleep n # es) = upserts es"

text \<open>Two processors that agree on everything except the error rows and the row
  counter, the first having \<open>k\<close> more of each.\<close>

definition differs_by_errors ::
  "nat \<Rightarrow> ('m, 'db) processor \<Rightarrow> ('m, 'db) processor \<Rightarrow> bool" where
  "differs_by_errors k A B =
     (processedCount A = processedCount B \<and> currentBatch A = currentBatch B
      \<and> isProcessing A = isProcessing B \<and> batchToProcess A = batchToProcess B
      \<and> insertedCount A = insertedCount B \<and> waiting A = waiting B \<and> store A = store B
      \<and> effects A = effects B \<and> length (errorRows A) = length (errorRows B) + k
      \<and> rowNumber A = rowNumber B + k)"

text \<open>A row the transformer accepts: both required fields are truthy and the
  transformation does not throw.\<close>

definition valid_row :: "('m, 'db) env \<Rightarrow> raw_row \<Rightarrow> bool" where
  "valid_row E r =
     (\<not> falsy (r ''id'') \<and> \<not> falsy (r ''title'') \<and> (case transformRow E r of Inl e \<Rightarrow> False | Inr m \<Rightarrow> True))"

text \<open>The order of events in which every commit started by a row has ended before the
  next row reaches the transformer.\<close>

definition sequential :: "raw_row list \<Rightarrow> event list" where
  "sequential rows = concat (map (\<lambda>r. [Row r, Settle]) rows)"

subsection \<open>Sample inputs and collaborators\<close>

text \<open>A table of \<open>JSON.parse\<close> holding the one text the examples use.\<close>

definition sample_builtins :: builtins where
  "sample_builtins = \<lparr>JSON_parse = (\<lambda>s. if s = ''[{\"name\":\"A\"}]''
        then Some (JArr [JObj [(''name'', JStr ''A'')]]) else None),
     Number_toString = (\<lambda>n. ''0'')\<rparr>"

text \<open>
  Files and what the CSV library reports for them when they arrive as one chunk: one
  with the complete header line followed by a data line of two fields, which the
  library refuses for its record length after it has delivered the header; one whose
  header line has the required names in reverse order; one whose header line has
  three of the required names only; and two with the complete header line followed by
  15 and by 16 data lines of 28 fields.
\<close>

fun join_with :: "string \<Rightarrow> string list \<Rightarrow> string" where
  "join_with sep [] = []"
| "join_with sep [x] = x"
| "join_with sep (x # y # ys) = x @ sep @ join_with sep (y # ys)"

definition short_row_file :: string where
  "short_row_file = join_with '','' REQUIRED_HEADERS @ [CHR 0x0A] @ ''1,2'' @ [CHR 0x0A]"

definition subset_file :: string where
  "subset_file = ''id,title,vote_average'' @ [CHR 0x0A]"

definition reversed_file :: string where
  "reversed_file = join_with '','' (rev REQUIRED_HEADERS) @ [CHR 0x0A]"

definition data_row :: "string list" where
  "data_row = replicate 28 ''x''"

definition rows_file :: "nat \<Rightarrow> string" where
  "rows_file n = join_with '','' REQUIRED_HEADERS @ [CHR 0x0A]
     @ concat (replicate n (join_with '','' data_row @ [CHR 0x0A]))"

definition sample_decode :: "string \<Rightarrow> decoded" where
  "sample_decode bytes =
     (if bytes = short_row_file then
        \<lparr>records = [REQUIRED_HEADERS], failure = Some ''Invalid Record Length''\<rparr>
      else if bytes = reversed_file then
        \<lparr>records = [rev REQUIRED_HEADERS], failure = None\<rparr>
      else if bytes = subset_file then
        \<lparr>records = [[''id'', ''title'', ''vote_average'']], failure = None\<rparr>
      else if bytes = rows_file 15 then
        \<lparr>records = REQUIRED_HEADERS # replicate 15 data_row, failure = None\<rparr>
      else if bytes = rows_file 16 then
        \<lparr>records = REQUIRED_HEADERS # replicate 16 data_row, failure = None\<rparr>
      else \<lparr>records = [], failure = None\<rparr>)"

definition sample_decoder :: "unit decoder" where
  "sample_decoder = \<lparr>initial = (), parse_chunk = (\<lambda>s chunk. (sample_decode chunk, s)),
     parse_end = (\<lambda>s. \<lparr>records = [], failure = None\<rparr>)\<rparr>"

text \<open>
  A storage whose state counts the calls made to it: it is busy during its first two
  calls and it rejects the record called \<open>bad\<close> every time.  Records are their own
  identifiers, and a row is transformed to the value of its \<open>id\<close> column.
\<close>

definition flaky_env :: "(string, nat) env" where
  "flaky_env = \<lparr>batchSize = 2,
     transformRow = (\<lambda>r. case r ''id'' of None \<Rightarrow> Inl ''no id'' | Some i \<Rightarrow> Inr i),
     item_id = (\<lambda>m. m),
     upsert = (\<lambda>d m. (if m = ''bad'' then Some ''boom''
                        else if d < 2 then Some ''busy'' else None, d + 1))\<rparr>"

text \<open>A storage that accepts every record, with the batch size 1000.\<close>

definition steady_env :: "(string, unit) env" where
  "steady_env = \<lparr>batchSize = 1000,
     transformRow = (\<lambda>r. case r ''id'' of None \<Rightarrow> Inl ''no id'' | Some i \<Rightarrow> Inr i),
     item_id = (\<lambda>m. m),
     upsert = (\<lambda>d m. (None, d))\<rparr>"

definition fresh :: "(string, nat) processor" where
  "fresh = init 0"

text \<open>The same storage after its busy phase.\<close>

definition warm :: "(string, nat) processor" where
  "warm = init 2"

definition mk_row :: "string \<Rightarrow> string \<Rightarrow> raw_row" where
  "mk_row i t = [''id'' \<mapsto> i, ''title'' \<mapsto> t]"

section \<open>Properties of the field parsers\<close>

lemmas str_defs = startsWith_def endsWith_def is_space_def is_upper_def is_lower_def is_digit_def
  is_company_char_def trim_def split_char_def split_comma_def split_cast_def at_as_def

lemma includes_char: "includes_str s [c] = (c \<in> set s)"
  by (induction s) (auto simp: startsWith_def)

lemma split_comma_acc_plain:
  "CHR '','' \<notin> set s \<Longrightarrow> split_comma_acc acc s = [rev acc @ s]"
  by (induction s arbitrary: acc) auto

lemma pc_primary_returns: "\<exists>r. pc_primary B s = Inr r"
  by (auto simp: pc_primary_def split: option.splits sum.splits)

text \<open>
  C7.  For every input (a string, \<open>null\<close> or \<open>undefined\<close>) and whatever
  \<open>JSON.parse\<close> does, the three parsers return a list and never an error; on
  \<open>null\<close>, \<open>undefined\<close> and the empty string each returns the empty list.  The
  nested handlers of \<open>parseProductionCompanies\<close> return whatever its two strategies
  do, and when both throw the result is the one-element list that wraps the raw
  input.  The first strategy in fact returns for every string; for a text without a
  bracket pair, a pipe or a comma it gives the one-element list that wraps the text
  (trimmed; the text itself when it has no white space around it).
\<close>

theorem parsers_never_raise:
  "(\<exists>r. parseProductionCompanies B input = Inr r)
   \<and> (\<exists>r. parseCastNames B input = Inr r)
   \<and> (\<exists>r. parseCast B input = Inr r)
   \<and> (input = Null \<or> input = Undefined \<or> input = Str [] \<longrightarrow>
        parseProductionCompanies B input = Inr [] \<and> parseCastNames B input = Inr []
        \<and> parseCast B input = Inr [])
   \<and> (\<exists>r. pc_guard primary backup s = Inr r)
   \<and> pc_guard (Inl e) (Inl e') s = Inr [\<lparr>name = JStr s, company_id = None\<rparr>]
   \<and> (\<exists>r. pc_primary B s = Inr r)
   \<and> (s \<noteq> [] \<and> \<not> (startsWith s ''['' \<and> endsWith s '']'') \<and> CHR ''|'' \<notin> set s
        \<and> CHR '','' \<notin> set s \<longrightarrow>
        parseProductionCompanies B (Str s) = Inr [\<lparr>name = JStr (trim s), company_id = None\<rparr>])
   \<and> (s \<noteq> [] \<and> \<not> (startsWith s ''['' \<and> endsWith s '']'') \<and> CHR ''|'' \<notin> set s
        \<and> CHR '','' \<notin> set s \<and> trim s = s \<longrightarrow>
        parseProductionCompanies B (Str s) = Inr [\<lparr>name = JStr s, company_id = None\<rparr>])"
proof -
  have g: "\<And>p b t. \<exists>r. pc_guard p b t = Inr r"
    by (auto simp: pc_guard_def try_catch_def split: sum.splits)
  have w: "pc_guard (Inl e) (Inl e') s = Inr [\<lparr>name = JStr s, company_id = None\<rparr>]"
    by (simp add: pc_guard_def try_catch_def)
  have a: "\<exists>r. parseProductionCompanies B input = Inr r"
    using g by (cases input) (auto simp: parseProductionCompanies_def)
  have b: "\<exists>r. parseCastNames B input = Inr r"
    by (cases input) (auto simp: parseCastNames_def try_catch_def cn_backup_def split: sum.splits)
  have c: "\<exists>r. parseCast B input = Inr r"
    by (cases input) (auto simp: parseCast_def try_catch_def pcast_backup_def split: sum.splits)
  have d: "input = Null \<or> input = Undefined \<or> input = Str [] \<longrightarrow>
        parseProductionCompanies B input = Inr [] \<and> parseCastNames B input = Inr []
        \<and> parseCast B input = Inr []"
    by (auto simp: parseProductionCompanies_def parseCastNames_def parseCast_def)
  have e: "s \<noteq> [] \<and> \<not> (startsWith s ''['' \<and> endsWith s '']'') \<and> CHR ''|'' \<notin> set s
        \<and> CHR '','' \<notin> set s \<longrightarrow>
        parseProductionCompanies B (Str s) = Inr [\<lparr>name = JStr (trim s), company_id = None\<rparr>]"
    by (auto simp: parseProductionCompanies_def pc_guard_def try_catch_def pc_primary_def
        pc_delimited_def includes_char split_comma_def split_comma_acc_plain named_def)
  from e have f: "s \<noteq> [] \<and> \<not> (startsWith s ''['' \<and> endsWith s '']'') \<and> CHR ''|'' \<notin> set s
        \<and> CHR '','' \<notin> set s \<and> trim s = s \<longrightarrow>
        parseProductionCompanies B (Str s) = Inr [\<lparr>name = JStr s, company_id = None\<rparr>]"
    by simp
  show ?thesis using a b c d e f g[of primary backup s] w pc_primary_returns[of B s] by blast
qed

theorem parsers_never_raise_witness:
  "parseProductionCompanies sample_builtins (Str '' Acme Corp '') =
     Inr [\<lparr>name = JStr ''Acme Corp'', company_id = None\<rparr>]
   \<and> parseProductionCompanies sample_builtins (Str ''Acme'') =
     Inr [\<lparr>name = JStr ''Acme'', company_id = None\<rparr>]
   \<and> parseProductionCompanies sample_builtins Null = Inr []
   \<and> parseCastNames sample_builtins Undefined = Inr []
   \<and> parseCast sample_builtins (Str []) = Inr []"
proof -
  have h: "'' Acme Corp '' \<noteq> [] \<and> \<not> (startsWith '' Acme Corp '' ''['' \<and> endsWith '' Acme Corp '' '']'')
      \<and> CHR ''|'' \<notin> set '' Acme Corp '' \<and> CHR '','' \<notin> set '' Acme Corp ''"
    by (simp add: startsWith_def)
  have t: "trim '' Acme Corp '' = ''Acme Corp''" by (simp add: trim_def is_space_def)
  have h': "''Acme'' \<noteq> [] \<and> \<not> (startsWith ''Acme'' ''['' \<and> endsWith ''Acme'' '']'')
      \<and> CHR ''|'' \<notin> set ''Acme'' \<and> CHR '','' \<notin> set ''Acme'' \<and> trim ''Acme'' = ''Acme''"
    by (simp add: startsWith_def trim_def is_space_def)
  note p = parsers_never_raise[where B = sample_builtins and s = "'' Acme Corp ''"]
  have 1: "parseProductionCompanies sample_builtins (Str '' Acme Corp '') =
      Inr [\<lparr>name = JStr (trim '' Acme Corp ''), company_id = None\<rparr>]"
    using p[where input = Null] h by blast
  have 2: "parseProductionCompanies sample_builtins Null = Inr []"
    using p[where input = Null] by blast
  have 3: "parseCastNames sample_builtins Undefined = Inr []"
    using p[where input = Undefined] by blast
  have 4: "parseCast sample_builtins (Str []) = Inr []"
    using p[where input = "Str []"] by blast
  have 5: "parseProductionCompanies sample_builtins (Str ''Acme'') =
      Inr [\<lparr>name = JStr ''Acme'', company_id = None\<rparr>]"
    using parsers_never_raise[where B = sample_builtins and input = Null and s = "''Acme''"] h'
    by blast
  show ?thesis using 1 2 3 4 5 by (simp add: t)
qed

text \<open>
  C8.  As amended: for the JSON text of an array with the one object whose name is A,
  \<open>parseProductionCompanies\<close> yields one company with that name and with the id
  \<open>null\<close>; for the text A, B it yields the two companies A and B, and for the bracket
  shorthand of Boondocs the one company Boondocs, each without an id key.
\<close>

theorem company_examples:
  "(JSON_parse B ''[{\"name\":\"A\"}]'' = Some (JArr [JObj [(''name'', JStr ''A'')]]) \<longrightarrow>
      parseProductionCompanies B (Str ''[{\"name\":\"A\"}]'') =
        Inr [\<lparr>name = JStr ''A'', company_id = Some JNull\<rparr>])
   \<and> parseProductionCompanies B (Str ''A, B'') =
        Inr [\<lparr>name = JStr ''A'', company_id = None\<rparr>, \<lparr>name = JStr ''B'', company_id = None\<rparr>]
   \<and> parseProductionCompanies B (Str ''[Boondocs]'') =
        Inr [\<lparr>name = JStr ''Boondocs'', company_id = None\<rparr>]"
  by (simp add: parseProductionCompanies_def pc_guard_def try_catch_def pc_primary_def pc_json_def
        pc_delimited_def simple_company_def company_of_def or_else_def named_def str_defs)

theorem company_examples_witness:
  "parseProductionCompanies sample_builtins (Str ''[{\"name\":\"A\"}]'') =
        Inr [\<lparr>name = JStr ''A'', company_id = Some JNull\<rparr>]"
proof -
  have h: "JSON_parse sample_builtins ''[{\"name\":\"A\"}]'' = Some (JArr [JObj [(''name'', JStr ''A'')]])"
    by (simp add: sample_builtins_def)
  from company_examples[of sample_builtins, THEN conjunct1] h show ?thesis by blast
qed

text \<open>
  C8 as stated gives the company parsed from the JSON text no id; the callback always
  adds the id key, \<open>null\<close> when the object has none.
\<close>

theorem company_id_null_counterexample:
  "parseProductionCompanies sample_builtins (Str ''[{\"name\":\"A\"}]'') \<noteq>
        Inr [\<lparr>name = JStr ''A'', company_id = None\<rparr>]"
  by (simp add: sample_builtins_def parseProductionCompanies_def pc_guard_def try_catch_def
        pc_primary_def pc_json_def pc_delimited_def simple_company_def company_of_def or_else_def
        named_def str_defs)

text \<open>
  C9.  For the text with the two entries Alice as Hero and Bob as Sidekick the name
  parser yields the names Alice and Bob and the object parser yields the two objects
  with these names: the text is split at the comma that is followed by an upper-case
  letter, and of each entry the part before the word \<open>as\<close> is kept.
\<close>

theorem cast_example:
  "parseCastNames B (Str ''Alice as Hero, Bob as Sidekick'') = Inr [JStr ''Alice'', JStr ''Bob'']
   \<and> parseCast B (Str ''Alice as Hero, Bob as Sidekick'') =
       Inr [\<lparr>cast_name = JStr ''Alice''\<rparr>, \<lparr>cast_name = JStr ''Bob''\<rparr>]
   \<and> split_cast ''Alice as Hero, Bob as Sidekick'' = [''Alice as Hero'', ''Bob as Sidekick'']
   \<and> name_part ''Alice as Hero'' = ''Alice'' \<and> name_part ''Bob as Sidekick'' = ''Bob''"
  by (simp add: parseCastNames_def parseCast_def try_catch_def cn_primary_def pcast_primary_def
        cn_text_def str_defs)

section \<open>Properties of the monetary fields\<close>

lemmas num_defs = parseFloat_def read_sign_def read_exponent_def digits_val_def is_space_def
  is_digit_def startsWith_def binary64_def exponent2_def round_even_def bits.simps Let_def

text \<open>The number of binary digits brackets a natural number between two powers of
  two.\<close>

lemma bits_upper: "n < 2 ^ bits n"
proof (induction n rule: bits.induct)
  case (1 n)
  show ?case
  proof (cases "n = 0")
    case True
    then show ?thesis by (simp add: bits.simps)
  next
    case False
    have "n div 2 < 2 ^ bits (n div 2)" using 1 False by simp
    then have "n < 2 * 2 ^ bits (n div 2)" by linarith
    then show ?thesis using False by (subst bits.simps) simp
  qed
qed

lemma bits_lower: "0 < n \<Longrightarrow> 2 ^ (bits n - 1) \<le> n"
proof (induction n rule: bits.induct)
  case (1 n)
  show ?case
  proof (cases "n div 2 = 0")
    case True
    then have "bits (n div 2) = 0" by (simp add: bits.simps)
    then show ?thesis using 1(2) by (subst bits.simps) simp
  next
    case False
    then have ih: "2 ^ (bits (n div 2) - 1) \<le> n div 2" using 1 by simp
    have pos: "0 < bits (n div 2)" using False by (subst bits.simps) simp
    have "bits n = Suc (bits (n div 2))" using 1(2) by (subst bits.simps) simp
    then have "2 ^ (bits n - 1) = 2 * 2 ^ (bits (n div 2) - 1)"
      using pos by (cases "bits (n div 2)") simp_all
    also have "\<dots> \<le> 2 * (n div 2)" using ih by simp
    also have "\<dots> \<le> n" by simp
    finally show ?thesis .
  qed
qed

lemma bits_ge: "2 ^ k \<le> n \<Longrightarrow> k < bits n"
proof (rule ccontr)
  assume a: "2 ^ k \<le> n" and "\<not> k < bits n"
  then have "bits n \<le> k" by simp
  then have "(2::nat) ^ bits n \<le> 2 ^ k" by (simp add: power_increasing)
  then show False using a bits_upper[of n] by linarith
qed

text \<open>For a quotient of at least one, the exponent brackets it.\<close>

lemma exponent2_nonneg:
  assumes q: "0 < q" and le: "q \<le> p"
  shows "0 \<le> exponent2 p q \<and> 2 ^ nat (exponent2 p q) * q \<le> p
         \<and> p < 2 ^ (nat (exponent2 p q) + 1) * q"
proof -
  have p: "0 < p" using q le by simp
  have bq: "0 < bits q" using q by (subst bits.simps) simp
  have "2 ^ (bits q - 1) \<le> p" using bits_lower[OF q] le by simp
  then have "bits q - 1 < bits p" by (rule bits_ge)
  then have bpq: "bits q \<le> bits p" by simp
  define d where "d = bits p - bits q"
  have dd: "int (bits p) - int (bits q) = int d" using bpq by (simp add: d_def)
  have bp: "bits p = d + bits q" using bpq by (simp add: d_def)
  have up: "p < 2 ^ (d + 1) * q"
  proof -
    have "p < 2 ^ bits p" by (rule bits_upper)
    also have "\<dots> = 2 ^ (d + 1) * 2 ^ (bits q - 1)"
      using bq by (simp add: bp power_add[symmetric] del: power_Suc)
    also have "\<dots> \<le> 2 ^ (d + 1) * q" using bits_lower[OF q] by simp
    finally show ?thesis .
  qed
  show ?thesis
  proof (cases "2 ^ d * q \<le> p")
    case True
    then have "exponent2 p q = int d" by (simp add: exponent2_def dd Let_def)
    then show ?thesis using True up by simp
  next
    case False
    then have e: "exponent2 p q = int d - 1" by (simp add: exponent2_def dd Let_def)
    have d0: "d \<noteq> 0" using False le by (cases d) simp_all
    then obtain d' where d': "d = Suc d'" by (cases d) simp_all
    have lo: "2 ^ d' * q \<le> p"
    proof -
      have "2 ^ d' * q \<le> 2 ^ d' * 2 ^ bits q" using bits_upper[of q] by simp
      also have "\<dots> = 2 ^ (bits p - 1)" by (simp add: bp d' power_add)
      also have "\<dots> \<le> p" by (rule bits_lower[OF p])
      finally show ?thesis .
    qed
    have "nat (exponent2 p q) = d'" using e d' by simp
    moreover have "0 \<le> exponent2 p q" using e d' by simp
    moreover have "p < 2 ^ (d' + 1) * q" using False d' by simp
    ultimately show ?thesis using lo by simp
  qed
qed

lemma round_even_ge: "0 < b \<Longrightarrow> k * b \<le> a \<Longrightarrow> k \<le> round_even a b"
proof -
  assume b: "0 < b" and k: "k * b \<le> a"
  have "k \<le> a div b" using b k by (simp add: less_eq_div_iff_mult_less_eq)
  then show ?thesis by (simp add: round_even_def Let_def)
qed

text \<open>A quotient of at least \<open>2 ^ 1024\<close> overflows.\<close>

lemma binary64_overflow:
  assumes q: "0 < q" and big: "2 ^ 1024 * q \<le> p"
  shows "binary64 p q = None"
proof -
  have le: "q \<le> p"
  proof -
    have "q = 1 * q" by simp
    also have "\<dots> \<le> 2 ^ 1024 * q" by (rule mult_le_mono1) simp
    finally show ?thesis using big by simp
  qed
  have p: "p \<noteq> 0" using q le by simp
  define e where "e = nat (exponent2 p q)"
  have e0: "exponent2 p q = int e" and lo: "2 ^ e * q \<le> p" and up: "p < 2 ^ (e + 1) * q"
    using exponent2_nonneg[OF q le] by (simp_all add: e_def)
  have "2 ^ 1024 * q < 2 ^ (e + 1) * q" using big up by linarith
  then have lt: "(2::nat) ^ 1024 < 2 ^ (e + 1)" using q by (simp only: mult_less_cancel2)
  have "1024 < e + 1" by (rule power_less_imp_less_exp[OF _ lt]) simp
  then have e1: "1024 \<le> e" by simp
  define s where "s = e - 52"
  have es: "e = s + 52" using e1 by (simp add: s_def)
  have smax: "max (exponent2 p q) (- 1022) - 52 = int s" using e0 e1 by (simp add: s_def)
  have "2 ^ 52 * (q * 2 ^ s) \<le> p" using lo by (simp add: es power_add mult_ac)
  then have n: "2 ^ 52 \<le> round_even p (q * 2 ^ s)" using q by (intro round_even_ge) simp_all
  have "(2::nat) ^ 1024 \<le> 2 ^ e" by (rule power_increasing) (use e1 in simp_all)
  also have "\<dots> = 2 ^ 52 * 2 ^ s" by (simp add: es power_add)
  also have "\<dots> \<le> round_even p (q * 2 ^ s) * 2 ^ s" using n by simp
  finally have "(2::nat) ^ 1024 \<le> round_even p (q * 2 ^ s) * 2 ^ s" .
  then have "rat_of_nat (2 ^ 1024) \<le> rat_of_nat (round_even p (q * 2 ^ s) * 2 ^ s)"
    by (simp only: of_nat_le_iff)
  then have v: "(2::rat) ^ 1024 \<le> rat_of_nat (round_even p (q * 2 ^ s)) * 2 ^ s" by simp
  show ?thesis using p v unfolding binary64_def smax Let_def by simp
qed

text \<open>A positive quotient below \<open>2\<close> to the power \<open>- 1075\<close> underflows to zero.\<close>

lemma exponent2_le: "exponent2 p q \<le> int (bits p) - int (bits q)"
  by (simp add: exponent2_def Let_def)

lemma binary64_underflow:
  assumes p: "0 < p" and small: "p * 2 ^ 1075 < q"
  shows "binary64 p q = Some 0"
proof -
  have "2 ^ (bits p - 1 + 1075) = 2 ^ (bits p - 1) * (2::nat) ^ 1075" by (rule power_add)
  also have "\<dots> \<le> p * 2 ^ 1075" by (rule mult_le_mono1) (rule bits_lower[OF p])
  finally have "2 ^ (bits p - 1 + 1075) \<le> q" using small by linarith
  then have "bits p - 1 + 1075 < bits q" by (rule bits_ge)
  moreover have "0 < bits p" using p by (subst bits.simps) simp
  ultimately have "int (bits p) - int (bits q) \<le> - 1075" by linarith
  then have "exponent2 p q \<le> - 1075" using exponent2_le[of p q] by linarith
  then have s: "max (exponent2 p q) (- 1022) - 52 = - 1074" by simp
  have "p * 2 ^ 1075 = 2 * (p * 2 ^ 1074)" by simp
  then have h: "2 * (p * 2 ^ 1074) < q" using small by (simp only:)
  then have "p * 2 ^ 1074 < q" by linarith
  then have "(p * 2 ^ 1074) div q = 0" "(p * 2 ^ 1074) mod q = p * 2 ^ 1074" by simp_all
  then have "round_even (p * 2 ^ 1074) q = 0"
    using h unfolding round_even_def Let_def by (simp only: if_True)
  then show ?thesis using p unfolding binary64_def s Let_def by simp
qed

text \<open>A natural number below \<open>2 ^ 53\<close> is kept as it is.\<close>

lemma bits_one: "bits (Suc 0) = Suc 0"
  by (simp add: bits.simps)

lemma binary64_exact:
  assumes n: "n < 2 ^ 53"
  shows "binary64 n (Suc 0) = Some (rat_of_nat n)"
proof (cases "n = 0")
  case True
  then show ?thesis by (simp add: binary64_def)
next
  case False
  then have pos: "0 < n" by simp
  define e where "e = bits n - 1"
  have "bits n = Suc (bits (n div 2))" using pos by (subst bits.simps) simp
  then have bn: "bits n = Suc e" by (simp add: e_def)
  have lo: "2 ^ e \<le> n" using bits_lower[OF pos] by (simp add: e_def)
  have "(2::nat) ^ e < 2 ^ 53" using lo n by linarith
  then have "e < 53" by (rule power_less_imp_less_exp[rotated]) simp
  then have "52 = e + (52 - e)" by simp
  then obtain k where k: "52 = e + k" ..
  have ex: "exponent2 n (Suc 0) = int e" using lo by (simp add: exponent2_def bits_one bn Let_def)
  have s: "max (exponent2 n (Suc 0)) (- 1022) - 52 = - int k" using k unfolding ex by simp
  show ?thesis
  proof (cases "k = 0")
    case True
    have big: "\<not> (2::rat) ^ 1024 \<le> rat_of_nat n"
    proof -
      have "n < 2 ^ 1024" using n by (rule less_le_trans) (simp add: power_increasing)
      then have "rat_of_nat n < rat_of_nat (2 ^ 1024)" by (simp only: of_nat_less_iff)
      then show ?thesis by simp
    qed
    show ?thesis using False True big unfolding binary64_def s Let_def
      by (simp add: round_even_def)
  next
    case k0: False
    have r: "round_even (n * 2 ^ k) (Suc 0) = n * 2 ^ k" by (simp add: round_even_def)
    have v: "rat_of_nat (n * 2 ^ k) / 2 ^ k = rat_of_nat n" by simp
    have big: "\<not> (2::rat) ^ 1024 \<le> rat_of_nat n"
    proof -
      have "n < 2 ^ 1024" using n by (rule less_le_trans) (simp add: power_increasing)
      then have "rat_of_nat n < rat_of_nat (2 ^ 1024)" by (simp only: of_nat_less_iff)
      then show ?thesis by simp
    qed
    show ?thesis using False k0 big unfolding binary64_def s Let_def
      by (simp add: r)
  qed
qed

lemmas read_defs = parseFloat_def read_sign_def read_exponent_def digits_val_def is_space_def
  is_digit_def startsWith_def Let_def

lemma parseFloat_empty: "parseFloat [] = NaN"
  by (simp add: num_defs)

text \<open>
  Literals that the format holds exactly, that it rounds, and that lie outside its
  range: \<open>2 ^ 53 + 1\<close> falls between two neighbours and goes to the even one.
\<close>

lemma parseFloat_samples:
  "parseFloat ''12.5'' = Fin (25 / 2)"
  "parseFloat ''12.7'' = Fin (3574732204225331 / 281474976710656)"
  "parseFloat ''0.1'' = Fin (3602879701896397 / 36028797018963968)"
  "parseFloat ''9007199254740993'' = Fin 9007199254740992"
  "parseFloat ''250000000'' = Fin 250000000"
  "parseFloat ''n/a'' = NaN"
  "parseFloat ''Infinity'' = PosInf"
  by (simp_all add: num_defs)

lemma parseFloat_out_of_range:
  "parseFloat ''1e400'' = PosInf"
  "parseFloat ''-1e400'' = NegInf"
  "parseFloat ''1e-400'' = Fin 0"
  by (simp_all add: read_defs binary64_overflow binary64_underflow)

text \<open>
  C3.  As amended: both transformers parse a monetary field as a floating-point
  number and yield 0 when the value is absent, empty or not a number.
  \<open>CsvService.transformRow\<close> rounds the parsed number to the nearest integer, halves
  upwards, so the value it stores is integral; its conversion fails only for a value
  that reads as infinite, which a literal beyond the range of the format does.
\<close>

theorem money_defaults_and_rounding:
  "parseMoneyValue None = Fin 0 \<and> parseMoneyValue (Some []) = Fin 0
   \<and> (parseFloat s = NaN \<longrightarrow> parseMoneyValue (Some s) = Fin 0)
   \<and> csv_money None = Inr 0 \<and> csv_money (Some []) = Inr 0
   \<and> (parseFloat s = NaN \<longrightarrow> csv_money (Some s) = Inr 0)
   \<and> (parseFloat s = Fin q \<longrightarrow> csv_money (Some s) = Inr \<lfloor>q + 1 / 2\<rfloor>)
   \<and> (csv_money v = Inl e \<longrightarrow>
        (\<exists>t. v = Some t \<and> (parseFloat t = PosInf \<or> parseFloat t = NegInf)))"
proof -
  have a: "parseMoneyValue None = Fin 0 \<and> parseMoneyValue (Some []) = Fin 0
      \<and> (parseFloat s = NaN \<longrightarrow> parseMoneyValue (Some s) = Fin 0)"
    by (simp add: parseMoneyValue_def or_zero_def)
  have z: "\<lfloor>1 / 2 :: rat\<rfloor> = 0" by (simp add: floor_eq_iff)
  have b: "csv_money None = Inr 0 \<and> csv_money (Some []) = Inr 0
      \<and> (parseFloat s = NaN \<longrightarrow> csv_money (Some s) = Inr 0)"
    by (simp add: csv_money_def or_zero_def Math_round_def BigInt_def parseFloat_empty z)
  have c: "parseFloat s = Fin q \<longrightarrow> csv_money (Some s) = Inr \<lfloor>q + 1 / 2\<rfloor>"
    by (simp add: csv_money_def or_zero_def Math_round_def BigInt_def z)
  have d: "csv_money v = Inl e \<longrightarrow>
        (\<exists>t. v = Some t \<and> (parseFloat t = PosInf \<or> parseFloat t = NegInf))"
  proof (cases v)
    case None
    then show ?thesis by (simp add: csv_money_def or_zero_def Math_round_def BigInt_def z)
  next
    case (Some t)
    then show ?thesis
      by (cases "parseFloat t") (simp_all add: csv_money_def or_zero_def Math_round_def BigInt_def z)
  qed
  show ?thesis using a b c d by blast
qed

theorem money_defaults_and_rounding_witness:
  "parseMoneyValue (Some ''n/a'') = Fin 0 \<and> csv_money (Some ''n/a'') = Inr 0
   \<and> csv_money (Some ''12.7'') = Inr 13
   \<and> csv_money (Some ''9007199254740993'') = Inr 9007199254740992
   \<and> csv_money (Some ''1e400'') = Inl RangeError
   \<and> (\<exists>t. Some ''1e400'' = Some t \<and> (parseFloat t = PosInf \<or> parseFloat t = NegInf))"
proof -
  have n: "parseFloat ''n/a'' = NaN" by (rule parseFloat_samples)
  have f: "parseFloat ''12.7'' = Fin (3574732204225331 / 281474976710656)"
    by (rule parseFloat_samples)
  have g: "parseFloat ''9007199254740993'' = Fin 9007199254740992" by (rule parseFloat_samples)
  have i: "parseFloat ''1e400'' = PosInf" by (rule parseFloat_out_of_range)
  have r: "\<lfloor>3574732204225331 / 281474976710656 + 1 / 2 :: rat\<rfloor> = 13"
    by (simp add: floor_eq_iff)
  have r2: "\<lfloor>9007199254740992 + 1 / 2 :: rat\<rfloor> = 9007199254740992"
    by (simp add: floor_eq_iff)
  have e: "csv_money (Some ''1e400'') = Inl RangeError"
    by (simp add: csv_money_def i or_zero_def Math_round_def BigInt_def)
  note p = money_defaults_and_rounding
  have 1: "parseMoneyValue (Some ''n/a'') = Fin 0" using p[of "''n/a''"] n by blast
  have 2: "csv_money (Some ''n/a'') = Inr 0" using p[of "''n/a''"] n by blast
  have 3: "csv_money (Some ''12.7'') =
      Inr \<lfloor>3574732204225331 / 281474976710656 + 1 / 2 :: rat\<rfloor>"
    using p[of "''12.7''" "3574732204225331 / 281474976710656"] f by blast
  have 4: "csv_money (Some ''9007199254740993'') = Inr \<lfloor>9007199254740992 + 1 / 2 :: rat\<rfloor>"
    using p[of "''9007199254740993''" 9007199254740992] g by blast
  have 5: "\<exists>t. Some ''1e400'' = Some t \<and> (parseFloat t = PosInf \<or> parseFloat t = NegInf)"
    using p[of "''n/a''" 0 "Some ''1e400''" RangeError] e by blast
  show ?thesis unfolding 1 2 3 4 r r2 using e 5 by simp
qed

text \<open>
  C3 as stated says the value is truncated.  \<open>CsvService.transformRow\<close> rounds: 12.7
  becomes 13, not 12.  \<open>parseMoneyValue\<close> of the stream processor returns the parsed
  number as it is: 12.5 stays 12.5.
\<close>

theorem money_not_truncated_counterexample:
  "parseFloat ''12.7'' = Fin (3574732204225331 / 281474976710656)
   \<and> csv_money (Some ''12.7'') = Inr 13
   \<and> csv_money (Some ''12.7'') \<noteq> Inr \<lfloor>3574732204225331 / 281474976710656 :: rat\<rfloor>
   \<and> parseMoneyValue (Some ''12.5'') = Fin (25 / 2) \<and> (25 / 2 :: rat) \<notin> \<int>"
proof -
  have f: "parseFloat ''12.7'' = Fin (3574732204225331 / 281474976710656)"
    by (rule parseFloat_samples)
  have g: "parseFloat ''12.5'' = Fin (25 / 2)" by (rule parseFloat_samples)
  have t: "\<lfloor>3574732204225331 / 281474976710656 :: rat\<rfloor> = 12" by (simp add: floor_eq_iff)
  have r': "\<lfloor>3715469692580659 / 281474976710656 :: rat\<rfloor> = 13" by (simp add: floor_eq_iff)
  have nz: "Fin (3574732204225331 / 281474976710656) \<noteq> Fin 0" by simp
  have "csv_money (Some ''12.7'') =
      BigInt (Math_round (Fin (3574732204225331 / 281474976710656)))"
    unfolding csv_money_def or_zero_def using f nz by simp
  also have "\<dots> = Inr 13" by (simp add: Math_round_def BigInt_def r')
  finally have c: "csv_money (Some ''12.7'') = Inr 13" .
  have m: "parseMoneyValue (Some ''12.5'') = Fin (25 / 2)"
    by (simp add: parseMoneyValue_def g or_zero_def)
  have "\<lfloor>25 / 2 :: rat\<rfloor> = 12" by (simp add: floor_eq_iff)
  then have "of_int \<lfloor>25 / 2 :: rat\<rfloor> \<noteq> (25 / 2 :: rat)" by simp
  then have i: "(25 / 2 :: rat) \<notin> \<int>" by (metis Ints_cases floor_of_int)
  show ?thesis unfolding t using f c m i by simp
qed

section \<open>Properties of header validation\<close>

text \<open>What one run of the \<open>readable\<close> handler does, before and after the first
  record.\<close>

lemma on_readable_first:
  "isFirstLine L \<Longrightarrow> on_readable L P =
     (case buffered P of
        [] \<Rightarrow> (L, P\<lparr>held := False\<rparr>)
      | r # rest \<Rightarrow>
          (L\<lparr>headers := r, isFirstLine := False, dataRead := True\<rparr>,
           P\<lparr>buffered := rest, held := (held P \<and> \<not> length rest < highWaterMark)\<rparr>))"
  by (subst on_readable.simps) (simp add: read_def split: list.splits)

lemma on_readable_later:
  "\<not> isFirstLine L \<Longrightarrow> on_readable L P = (L, P\<lparr>buffered := [], held := False\<rparr>)"
proof (induction "buffered P" arbitrary: P)
  case Nil
  then show ?case by (subst on_readable.simps) (simp add: read_def)
next
  case (Cons r rest)
  let ?P1 = "P\<lparr>buffered := rest, held := (held P \<and> \<not> length rest < highWaterMark)\<rparr>"
  have "on_readable L P = on_readable L ?P1"
    using Cons.prems Cons.hyps(2)[symmetric] by (subst on_readable.simps) (simp add: read_def)
  also have "\<dots> = (L, ?P1\<lparr>buffered := [], held := False\<rparr>)"
    using Cons.hyps(1)[of ?P1] Cons.prems by simp
  finally show ?case by simp
qed


lemma on_end_verdict:
  "tidy L \<Longrightarrow> on_end L = (if isFirstLine L then Some EmptyOrMalformed
                            else header_verdict [headers L])"
  by (simp add: on_end_def header_verdict_def tidy_def Let_def)

lemma header_verdict_Cons: "header_verdict (r # rest) = header_verdict [r]"
  by (simp add: header_verdict_def)

lemma pipe_chunks_Cons:
  "write_chunk D c P = (None, P1) \<Longrightarrow>
   pipe_chunks D (c # cs) L P =
     (if held P1 then
        (let (L1, P2) = on_readable L P1
         in if held P2 then None else pipe_chunks D cs L1 P2)
      else pipe_chunks D cs L P1)"
  by simp

text \<open>
  When the promise settles, it is rejected with the first error of the decoder, or
  else resolved with the verdict on the first record of the stream.
\<close>

lemma pipe_chunks_result:
  "tidy L \<Longrightarrow> pipe_chunks D cs L P = Some res \<Longrightarrow>
   res = (case failure (decode_from D (decoding P) cs) of
            Some e \<Rightarrow> Inl (ParseFailed e)
          | None \<Rightarrow>
              Inr (header_verdict
                (if isFirstLine L then buffered P @ records (decode_from D (decoding P) cs)
                 else [headers L])))"
proof (induction cs arbitrary: L P)
  case Nil
  let ?d = "parse_end D (decoding P)"
  show ?case
  proof (cases "failure ?d")
    case (Some e)
    then show ?thesis using Nil.prems(2) by simp
  next
    case None
    show ?thesis
    proof (cases "isFirstLine L")
      case False
      then show ?thesis using Nil.prems None
        by (simp add: on_readable_later on_end_verdict split: if_splits)
    next
      case True
      show ?thesis
      proof (cases "buffered P @ records ?d")
        case Nil
        then show ?thesis using Nil.prems None True
          by (simp add: on_readable_first on_end_verdict header_verdict_def split: if_splits)
      next
        case (Cons r rest)
        have t: "tidy (L\<lparr>headers := r, isFirstLine := False, dataRead := True\<rparr>)"
          by (simp add: tidy_def)
        show ?thesis using Nil.prems None True Cons
          by (simp add: on_readable_first on_readable_later on_end_verdict[OF t]
                header_verdict_Cons[of r rest] split: if_splits)
      qed
    qed
  qed
next
  case (Cons c cs)
  obtain d s where pc: "parse_chunk D (decoding P) c = (d, s)"
    by (cases "parse_chunk D (decoding P) c")
  define P1 where "P1 = P\<lparr>decoding := s, buffered := buffered P @ records d,
       held := (records d \<noteq> [] \<and> \<not> length (buffered P @ records d) < highWaterMark)\<rparr>"
  have w: "write_chunk D c P = (failure d, P1)" by (simp add: write_chunk_def pc Let_def P1_def)
  have p1: "decoding P1 = s" "buffered P1 = buffered P @ records d"
    "held P1 \<Longrightarrow> records d \<noteq> []"
    by (simp_all add: P1_def)
  show ?case
  proof (cases "failure d")
    case (Some e)
    then show ?thesis using Cons.prems(2) w pc by simp
  next
    case None
    let ?r = "decode_from D s cs"
    have df: "records (decode_from D (decoding P) (c # cs)) = records d @ records ?r"
      "failure (decode_from D (decoding P) (c # cs)) = failure ?r"
      using pc None by (simp_all add: Let_def)
    have step: "pipe_chunks D (c # cs) L P =
       (if held P1 then
          (let (L1, P2) = on_readable L P1
           in if held P2 then None else pipe_chunks D cs L1 P2)
        else pipe_chunks D cs L P1)"
      using w None by (intro pipe_chunks_Cons) simp
    show ?thesis
    proof (cases "held P1")
      case False
      then have "pipe_chunks D cs L P1 = Some res" using Cons.prems(2) step by simp
      from Cons.IH[OF Cons.prems(1) this] show ?thesis unfolding df p1
        by (simp split: option.splits)
    next
      case True
      then have ne: "records d \<noteq> []" by (rule p1)
      show ?thesis
      proof (cases "isFirstLine L")
        case notfirst: False
        have "pipe_chunks D cs L (P1\<lparr>buffered := [], held := False\<rparr>) = Some res"
          using Cons.prems(2) True notfirst unfolding step by (simp add: on_readable_later)
          from Cons.IH[OF Cons.prems(1) this] notfirst show ?thesis unfolding df
          by (simp add: p1 split: option.splits)
      next
        case first: True
        obtain r rest where b: "buffered P @ records d = r # rest"
          using ne by (cases "buffered P @ records d") simp_all
        let ?L1 = "L\<lparr>headers := r, isFirstLine := False, dataRead := True\<rparr>"
        let ?P2 = "P1\<lparr>buffered := rest, held := (held P1 \<and> \<not> length rest < highWaterMark)\<rparr>"
        have o: "on_readable L P1 = (?L1, ?P2)" using first b by (simp add: on_readable_first p1)
        have t: "tidy ?L1" by (simp add: tidy_def)
        have run: "pipe_chunks D cs ?L1 ?P2 = Some res"
          using Cons.prems(2) True unfolding step o by (simp split: if_splits)
        have ih: "res = (case failure ?r of
                           Some e \<Rightarrow> Inl (ParseFailed e)
                         | None \<Rightarrow> Inr (header_verdict [r]))"
          using Cons.IH[OF t run] by (simp add: p1 split: option.splits)
        have app: "buffered P @ records d @ records ?r = r # rest @ records ?r"
          using arg_cong[OF b, of "\<lambda>xs. xs @ records ?r"] by simp
        have hv: "header_verdict (buffered P @ records d @ records ?r) = header_verdict [r]"
          unfolding app by (rule header_verdict_Cons)
        show ?thesis unfolding df using ih first
          by (simp add: hv split: option.splits)
      qed
    qed
  qed
qed

text \<open>A stream of at most 16 records settles the promise.\<close>

lemma pipe_chunks_settles:
  "length (buffered P) + length (records (decode_from D (decoding P) cs)) \<le> highWaterMark \<Longrightarrow>
   \<exists>res. pipe_chunks D cs L P = Some res"
proof (induction cs arbitrary: L P)
  case Nil
  let ?d = "parse_end D (decoding P)"
  show ?case
  proof (cases "failure ?d")
    case (Some e)
    then show ?thesis by simp
  next
    case None
    show ?thesis
    proof (cases "isFirstLine L")
      case False
      then show ?thesis using None by (simp add: on_readable_later)
    next
      case True
      then show ?thesis using None
        by (cases "buffered P @ records ?d") (simp_all add: on_readable_first on_readable_later)
    qed
  qed
next
  case (Cons c cs)
  obtain d s where pc: "parse_chunk D (decoding P) c = (d, s)"
    by (cases "parse_chunk D (decoding P) c")
  define P1 where "P1 = P\<lparr>decoding := s, buffered := buffered P @ records d,
       held := (records d \<noteq> [] \<and> \<not> length (buffered P @ records d) < highWaterMark)\<rparr>"
  have w: "write_chunk D c P = (failure d, P1)" by (simp add: write_chunk_def pc Let_def P1_def)
  have p1: "decoding P1 = s" "buffered P1 = buffered P @ records d"
    "held P1 \<Longrightarrow> records d \<noteq> []"
    by (simp_all add: P1_def)
  show ?case
  proof (cases "failure d")
    case (Some e)
    then show ?thesis using w by simp
  next
    case None
    let ?r = "decode_from D s cs"
    have df: "records (decode_from D (decoding P) (c # cs)) = records d @ records ?r"
      "failure (decode_from D (decoding P) (c # cs)) = failure ?r"
      using pc None by (simp_all add: Let_def)
    have bound: "length (buffered P) + length (records d) + length (records ?r) \<le> highWaterMark"
      using Cons.prems unfolding df by simp
    have step: "pipe_chunks D (c # cs) L P =
       (if held P1 then
          (let (L1, P2) = on_readable L P1
           in if held P2 then None else pipe_chunks D cs L1 P2)
        else pipe_chunks D cs L P1)"
      using w None by (intro pipe_chunks_Cons) simp
    show ?thesis
    proof (cases "held P1")
      case False
      have "\<exists>res. pipe_chunks D cs L P1 = Some res"
        by (rule Cons.IH) (use bound in \<open>simp add: p1\<close>)
      then show ?thesis using False unfolding step by simp
    next
      case True
      then have ne: "records d \<noteq> []" by (rule p1)
      show ?thesis
      proof (cases "isFirstLine L")
        case notfirst: False
        have "\<exists>res. pipe_chunks D cs L (P1\<lparr>buffered := [], held := False\<rparr>) = Some res"
          by (rule Cons.IH) (use bound in \<open>simp add: p1\<close>)
        then show ?thesis using True notfirst unfolding step by (simp add: on_readable_later)
      next
        case first: True
        obtain r rest where b: "buffered P @ records d = r # rest"
          using ne by (cases "buffered P @ records d") simp_all
        have len: "length (buffered P) + length (records d) = Suc (length rest)"
          using arg_cong[OF b, of length] by simp
        have lr: "length rest < highWaterMark" using bound len by simp
        let ?L1 = "L\<lparr>headers := r, isFirstLine := False, dataRead := True\<rparr>"
        let ?P2 = "P1\<lparr>buffered := rest, held := False\<rparr>"
        have o: "on_readable L P1 = (?L1, ?P2)" using first b lr by (simp add: on_readable_first p1)
        have "length rest + length (records ?r) \<le> highWaterMark" using bound len by simp
        then have "\<exists>res. pipe_chunks D cs ?L1 ?P2 = Some res"
          by (intro Cons.IH) (simp add: p1)
        then show ?thesis using True unfolding step o by simp
      qed
    qed
  qed
qed


lemma required_count: "length REQUIRED_HEADERS = 28 \<and> distinct REQUIRED_HEADERS"
  by (simp add: REQUIRED_HEADERS_def)

lemma header_verdict_null:
  "(header_verdict rows = None) =
   (\<exists>hs rest. rows = hs # rest \<and> set REQUIRED_HEADERS \<subseteq> set hs)"
proof -
  have ne: "REQUIRED_HEADERS \<noteq> []" by (simp add: REQUIRED_HEADERS_def)
  have emp: "\<And>hs. (filter (\<lambda>h. h \<notin> set hs) REQUIRED_HEADERS = []) = (set REQUIRED_HEADERS \<subseteq> set hs)"
    by (auto simp: filter_empty_conv)
  have nil: "\<not> set REQUIRED_HEADERS \<subseteq> set ([] :: string list)"
    using ne by (cases REQUIRED_HEADERS) simp_all
  show ?thesis using nil by (auto simp: header_verdict_def emp split: list.splits)
qed

text \<open>
  C6.  As amended: a stream that delivered no chunk gives the empty-file message and
  no error, and a stream in which the decoder finds at most 16 records settles the
  promise.  Whenever the promise settles: if the decoder has reported no error, the
  result is \<open>null\<close> exactly when the first record contains every one of the 28
  required names (in any order, since only membership is tested), and a first record
  that lacks some of them gives the message that lists exactly the missing names; if
  the decoder has reported an error anywhere in the stream, the call is rejected.
\<close>

theorem header_validation:
  "validateCsvHeaders D [] = Some (Inr (Some EmptyFile))
   \<and> (chunks \<noteq> [] \<and> length (records (decode_stream D chunks)) \<le> highWaterMark \<longrightarrow>
        (\<exists>r. validateCsvHeaders D chunks = Some r))
   \<and> (chunks \<noteq> [] \<and> validateCsvHeaders D chunks = Some res
        \<and> failure (decode_stream D chunks) = None \<longrightarrow>
        (res = Inr None) =
        (\<exists>hs rest. records (decode_stream D chunks) = hs # rest
            \<and> set REQUIRED_HEADERS \<subseteq> set hs))
   \<and> (chunks \<noteq> [] \<and> validateCsvHeaders D chunks = Some res
        \<and> failure (decode_stream D chunks) = None
        \<and> records (decode_stream D chunks) = hs # rest \<and> hs \<noteq> []
        \<and> \<not> set REQUIRED_HEADERS \<subseteq> set hs \<longrightarrow>
        res = Inr (Some (MissingColumns (filter (\<lambda>h. h \<notin> set hs) REQUIRED_HEADERS)))
        \<and> set (filter (\<lambda>h. h \<notin> set hs) REQUIRED_HEADERS) = set REQUIRED_HEADERS - set hs)
   \<and> (chunks \<noteq> [] \<and> validateCsvHeaders D chunks = Some res
        \<and> failure (decode_stream D chunks) = Some e \<longrightarrow>
        res = Inl (ParseFailed e))
   \<and> length REQUIRED_HEADERS = 28"
proof -
  let ?cs = "filter (\<lambda>chunk. chunk \<noteq> []) chunks"
  let ?L = "\<lparr>headers = [], isFirstLine = True, dataRead = False\<rparr>"
  let ?P = "\<lparr>decoding = initial D, buffered = [], held = False\<rparr>"
  let ?d = "decode_stream D chunks"
  have v: "chunks \<noteq> [] \<Longrightarrow> validateCsvHeaders D chunks = pipe_chunks D ?cs ?L ?P"
    by (simp add: validateCsvHeaders_def)
  have dd: "decode_from D (decoding ?P) ?cs = ?d" by (simp add: decode_stream_def)
  have t: "tidy ?L" by (simp add: tidy_def)
  have r: "chunks \<noteq> [] \<Longrightarrow> validateCsvHeaders D chunks = Some res \<Longrightarrow>
      res = (case failure ?d of Some e \<Rightarrow> Inl (ParseFailed e)
             | None \<Rightarrow> Inr (header_verdict (records ?d)))"
    using pipe_chunks_result[OF t, of D ?cs ?P res] unfolding dd
    by (simp add: v split: option.splits)
  have a: "validateCsvHeaders D [] = Some (Inr (Some EmptyFile))"
    by (simp add: validateCsvHeaders_def)
  have b: "chunks \<noteq> [] \<and> length (records ?d) \<le> highWaterMark \<longrightarrow>
        (\<exists>r. validateCsvHeaders D chunks = Some r)"
    using pipe_chunks_settles[of ?P D ?cs ?L] unfolding dd by (simp add: v)
  have c: "chunks \<noteq> [] \<and> validateCsvHeaders D chunks = Some res \<and> failure ?d = None \<longrightarrow>
        (res = Inr None) =
        (\<exists>hs rest. records ?d = hs # rest \<and> set REQUIRED_HEADERS \<subseteq> set hs)"
  proof (intro impI)
    assume "chunks \<noteq> [] \<and> validateCsvHeaders D chunks = Some res \<and> failure ?d = None"
    then have "res = Inr (header_verdict (records ?d))" using r by simp
    then show "(res = Inr None) =
        (\<exists>hs rest. records ?d = hs # rest \<and> set REQUIRED_HEADERS \<subseteq> set hs)"
      by (simp add: header_verdict_null)
  qed
  have d: "chunks \<noteq> [] \<and> validateCsvHeaders D chunks = Some res \<and> failure ?d = None
        \<and> records ?d = hs # rest \<and> hs \<noteq> [] \<and> \<not> set REQUIRED_HEADERS \<subseteq> set hs \<longrightarrow>
        res = Inr (Some (MissingColumns (filter (\<lambda>h. h \<notin> set hs) REQUIRED_HEADERS)))
        \<and> set (filter (\<lambda>h. h \<notin> set hs) REQUIRED_HEADERS) = set REQUIRED_HEADERS - set hs"
  proof (intro impI)
    assume h: "chunks \<noteq> [] \<and> validateCsvHeaders D chunks = Some res \<and> failure ?d = None
        \<and> records ?d = hs # rest \<and> hs \<noteq> [] \<and> \<not> set REQUIRED_HEADERS \<subseteq> set hs"
    then have "res = Inr (header_verdict (hs # rest))" using r by simp
    moreover have "filter (\<lambda>h. h \<notin> set hs) REQUIRED_HEADERS \<noteq> []"
      using h by (auto simp: filter_empty_conv)
    ultimately show "res = Inr (Some (MissingColumns (filter (\<lambda>h. h \<notin> set hs) REQUIRED_HEADERS)))
        \<and> set (filter (\<lambda>h. h \<notin> set hs) REQUIRED_HEADERS) = set REQUIRED_HEADERS - set hs"
      using h by (auto simp: header_verdict_def)
  qed
  have e: "chunks \<noteq> [] \<and> validateCsvHeaders D chunks = Some res \<and> failure ?d = Some e \<longrightarrow>
        res = Inl (ParseFailed e)"
    using r by auto
  show ?thesis using a b c d e required_count by blast
qed

lemmas file_defs = sample_decoder_def sample_decode_def short_row_file_def reversed_file_def
  subset_file_def rows_file_def data_row_def REQUIRED_HEADERS_def decode_stream_def

lemma sample_streams:
  "decode_stream sample_decoder [reversed_file] = \<lparr>records = [rev REQUIRED_HEADERS], failure = None\<rparr>"
  "decode_stream sample_decoder [subset_file] =
     \<lparr>records = [[''id'', ''title'', ''vote_average'']], failure = None\<rparr>"
  "decode_stream sample_decoder [short_row_file] =
     \<lparr>records = [REQUIRED_HEADERS], failure = Some ''Invalid Record Length''\<rparr>"
  by (simp_all add: file_defs)

lemma sample_stream_15:
  "decode_stream sample_decoder [rows_file 15] =
     \<lparr>records = REQUIRED_HEADERS # replicate 15 data_row, failure = None\<rparr>"
  by (simp add: file_defs numeral_eq_Suc)


theorem header_validation_witness:
  "validateCsvHeaders sample_decoder [] = Some (Inr (Some EmptyFile))
   \<and> validateCsvHeaders sample_decoder [reversed_file] = Some (Inr None)
   \<and> validateCsvHeaders sample_decoder [rows_file 15] = Some (Inr None)
   \<and> validateCsvHeaders sample_decoder [short_row_file] =
       Some (Inl (ParseFailed ''Invalid Record Length''))
   \<and> validateCsvHeaders sample_decoder [subset_file] =
       Some (Inr (Some (MissingColumns
         [''vote_count'', ''status'', ''release_date'', ''revenue'',
          ''runtime'', ''budget'', ''imdb_id'', ''original_language'',
          ''original_title'', ''overview'', ''popularity'', ''tagline'',
          ''genres'', ''production_companies'', ''production_countries'',
          ''spoken_languages'', ''cast'', ''director'',
          ''director_of_photography'', ''writers'', ''producers'',
          ''music_composer'', ''imdb_rating'', ''imdb_votes'',
          ''poster_path''])))"
proof -
  note p = header_validation[of sample_decoder]
  note settles = p[THEN conjunct2, THEN conjunct1, THEN mp]
  note null_iff = p[THEN conjunct2, THEN conjunct2, THEN conjunct1, THEN mp]
  note missing = p[THEN conjunct2, THEN conjunct2, THEN conjunct2, THEN conjunct1, THEN mp,
      THEN conjunct1]
  note rejected = p[THEN conjunct2, THEN conjunct2, THEN conjunct2, THEN conjunct2,
      THEN conjunct1, THEN mp]
  have 1: "validateCsvHeaders sample_decoder [] = Some (Inr (Some EmptyFile))"
    by (rule p[THEN conjunct1])
  have 2: "validateCsvHeaders sample_decoder [reversed_file] = Some (Inr None)"
  proof -
    let ?c = "[reversed_file]"
    have "?c \<noteq> [] \<and> length (records (decode_stream sample_decoder ?c)) \<le> highWaterMark"
      unfolding sample_streams by (simp add: highWaterMark_def)
    from settles[OF this] obtain r where r: "validateCsvHeaders sample_decoder ?c = Some r" ..
    have h: "?c \<noteq> [] \<and> validateCsvHeaders sample_decoder ?c = Some r
        \<and> failure (decode_stream sample_decoder ?c) = None"
      unfolding sample_streams using r by simp
    have e: "\<exists>hs rest. records (decode_stream sample_decoder ?c) = hs # rest
        \<and> set REQUIRED_HEADERS \<subseteq> set hs"
      unfolding sample_streams by simp
    have "r = Inr None" unfolding null_iff[OF h] by (rule e)
    then show ?thesis using r by simp
  qed
  have 3: "validateCsvHeaders sample_decoder [rows_file 15] = Some (Inr None)"
  proof -
    let ?c = "[rows_file 15]"
    have "?c \<noteq> [] \<and> length (records (decode_stream sample_decoder ?c)) \<le> highWaterMark"
      unfolding sample_stream_15 by (simp add: highWaterMark_def)
    from settles[OF this] obtain r where r: "validateCsvHeaders sample_decoder ?c = Some r" ..
    have h: "?c \<noteq> [] \<and> validateCsvHeaders sample_decoder ?c = Some r
        \<and> failure (decode_stream sample_decoder ?c) = None"
      unfolding sample_stream_15 using r by simp
    have e: "\<exists>hs rest. records (decode_stream sample_decoder ?c) = hs # rest
        \<and> set REQUIRED_HEADERS \<subseteq> set hs"
      unfolding sample_stream_15 by simp
    have "r = Inr None" unfolding null_iff[OF h] by (rule e)
    then show ?thesis using r by simp
  qed
  have 4: "validateCsvHeaders sample_decoder [short_row_file] =
       Some (Inl (ParseFailed ''Invalid Record Length''))"
  proof -
    let ?c = "[short_row_file]"
    have "?c \<noteq> [] \<and> length (records (decode_stream sample_decoder ?c)) \<le> highWaterMark"
      unfolding sample_streams by (simp add: highWaterMark_def)
    from settles[OF this] obtain r where r: "validateCsvHeaders sample_decoder ?c = Some r" ..
    have h: "?c \<noteq> [] \<and> validateCsvHeaders sample_decoder ?c = Some r
        \<and> failure (decode_stream sample_decoder ?c) = Some ''Invalid Record Length''"
      unfolding sample_streams using r by simp
    have "r = Inl (ParseFailed ''Invalid Record Length'')" by (rule rejected[OF h])
    then show ?thesis using r by simp
  qed
  have 5: "validateCsvHeaders sample_decoder [subset_file] =
       Some (Inr (Some (MissingColumns
         (filter (\<lambda>h. h \<notin> set [''id'', ''title'', ''vote_average'']) REQUIRED_HEADERS))))"
  proof -
    let ?c = "[subset_file]"
    have "?c \<noteq> [] \<and> length (records (decode_stream sample_decoder ?c)) \<le> highWaterMark"
      unfolding sample_streams by (simp add: highWaterMark_def)
    from settles[OF this] obtain r where r: "validateCsvHeaders sample_decoder ?c = Some r" ..
    have h: "?c \<noteq> [] \<and> validateCsvHeaders sample_decoder ?c = Some r
        \<and> failure (decode_stream sample_decoder ?c) = None
        \<and> records (decode_stream sample_decoder ?c) = [''id'', ''title'', ''vote_average''] # []
        \<and> [''id'', ''title'', ''vote_average''] \<noteq> []
        \<and> \<not> set REQUIRED_HEADERS \<subseteq> set [''id'', ''title'', ''vote_average'']"
      unfolding sample_streams using r by (simp add: REQUIRED_HEADERS_def)
    have "r = Inr (Some (MissingColumns
         (filter (\<lambda>h. h \<notin> set [''id'', ''title'', ''vote_average'']) REQUIRED_HEADERS)))"
      by (rule missing[OF h])
    then show ?thesis using r by simp
  qed
  show ?thesis unfolding 1 2 3 4 5 by (simp add: REQUIRED_HEADERS_def)
qed

lemmas stream_defs = validateCsvHeaders_def write_chunk_def read_def on_readable.simps
  on_end_def highWaterMark_def Let_def

text \<open>
  C6 as stated returns \<open>null\<close> whenever the first row has all required names.  For
  the file whose header is complete and whose second line is too short, the decoder
  delivers the header and then raises its error, and the call is rejected.  For the
  file with the complete header and 16 well-formed data lines the write is held back
  with 17 records in the buffer; the handler takes the header and leaves 16 behind, so
  nothing asks for more and the promise is never settled.
\<close>

theorem header_complete_not_null_counterexample:
  "records (decode_stream sample_decoder [short_row_file]) = [REQUIRED_HEADERS]
   \<and> validateCsvHeaders sample_decoder [short_row_file] =
       Some (Inl (ParseFailed ''Invalid Record Length''))
   \<and> decode_stream sample_decoder [rows_file 16] =
       \<lparr>records = REQUIRED_HEADERS # replicate 16 data_row, failure = None\<rparr>
   \<and> validateCsvHeaders sample_decoder [rows_file 16] = None"
proof -
  have a: "records (decode_stream sample_decoder [short_row_file]) = [REQUIRED_HEADERS]"
    unfolding sample_streams by simp
  have b: "validateCsvHeaders sample_decoder [short_row_file] =
       Some (Inl (ParseFailed ''Invalid Record Length''))"
    by (simp add: stream_defs sample_decoder_def sample_decode_def short_row_file_def)
  have c: "decode_stream sample_decoder [rows_file 16] =
       \<lparr>records = REQUIRED_HEADERS # replicate 16 data_row, failure = None\<rparr>"
    by (simp add: file_defs numeral_eq_Suc)
  have d: "validateCsvHeaders sample_decoder [rows_file 16] = None"
    by (simp add: stream_defs file_defs numeral_eq_Suc)
  show ?thesis using a b c d by simp
qed

section \<open>Properties of the committer\<close>

lemma flushes_append: "flushes (a @ b) = flushes a @ flushes b"
  by (induction a rule: flushes.induct) simp_all

lemma upserts_append: "upserts (a @ b) = upserts a + upserts b"
  by (induction a rule: upserts.induct) simp_all

lemma retry_loop_shape:
  "\<exists>d k errs es. retry_loop E x r P =
       P\<lparr>store := d, insertedCount := insertedCount P + k,
         errorRows := errorRows P @ errs, effects := effects P @ es\<rparr>
     \<and> flushes es = [] \<and> upserts es \<le> MAX_RETRIES - r
     \<and> (r < MAX_RETRIES \<longrightarrow> 1 \<le> upserts es) \<and> k + length errs \<le> 1"
proof (induction E x r P rule: retry_loop.induct)
  case (1 E item retries P)
  show ?case
  proof (cases "retries < MAX_RETRIES")
    case False
    then have "retry_loop E item retries P = P" by (simp add: retry_loop.simps)
    then show ?thesis using False
      by (intro exI[of _ "store P"] exI[of _ 0] exI[of _ "[]"]) simp
  next
    case True
    obtain out d where u: "upsert E (store P) item = (out, d)" by (cases "upsert E (store P) item")
    show ?thesis
    proof (cases out)
      case None
      with True u have "retry_loop E item retries P =
          P\<lparr>store := d, insertedCount := insertedCount P + 1,
               effects := effects P @ [Upsert (item_id E item) None]\<rparr>"
        by (subst retry_loop.simps) simp
      then show ?thesis using True
        by (intro exI[of _ d] exI[of _ 1] exI[of _ "[]"] exI[of _ "[Upsert (item_id E item) None]"]) simp
    next
      case (Some msg)
      show ?thesis
      proof (cases "retries + 1 \<ge> MAX_RETRIES")
        case last: True
        let ?P1 = "P\<lparr>store := d, effects := effects P @ [Upsert (item_id E item) (Some msg)],
                errorRows := errorRows P @ [\<lparr>row = - 1, error = RecordFailed (item_id E item) msg\<rparr>]\<rparr>"
        have unf: "retry_loop E item retries P = retry_loop E item (retries + 1) ?P1"
          using True u Some last by (subst retry_loop.simps) (simp add: Let_def)
        have "retry_loop E item (retries + 1) ?P1 = ?P1"
          using last by (subst retry_loop.simps) simp
        with unf have "retry_loop E item retries P = ?P1" by simp
        then show ?thesis using True
          by (intro exI[of _ d] exI[of _ 0]
                exI[of _ "[\<lparr>row = - 1, error = RecordFailed (item_id E item) msg\<rparr>]"]
                exI[of _ "[Upsert (item_id E item) (Some msg)]"]) simp
      next
        case notlast: False
        let ?P1 = "P\<lparr>store := d, effects := effects P @ [Upsert (item_id E item) (Some msg)] @ [Sleep (500 * (retries + 1))]\<rparr>"
        have unf: "retry_loop E item retries P = retry_loop E item (retries + 1) ?P1"
          using True u Some notlast by (subst retry_loop.simps) (simp add: Let_def)
        from "1.IH"(2)[OF True u[symmetric, unfolded Some] refl refl notlast]
        obtain d' k errs es where
          r: "retry_loop E item (retries + 1) ?P1 =
               ?P1\<lparr>store := d', insertedCount := insertedCount ?P1 + k,
                    errorRows := errorRows ?P1 @ errs, effects := effects ?P1 @ es\<rparr>"
          and f: "flushes es = []" and n: "upserts es \<le> MAX_RETRIES - (retries + 1)"
          and k: "k + length errs \<le> 1"
          by (auto simp: Let_def)
        show ?thesis using True f n k unf r
          by (intro exI[of _ d'] exI[of _ k] exI[of _ errs]
                exI[of _ "Upsert (item_id E item) (Some msg) # Sleep (500 * (retries + 1)) # es"])
             simp
      qed
    qed
  qed
qed

lemma commit_all_shape:
  "\<exists>d k errs es. commit_all E xs P =
       P\<lparr>store := d, insertedCount := insertedCount P + k,
         errorRows := errorRows P @ errs, effects := effects P @ es\<rparr>
     \<and> flushes es = [] \<and> k + length errs \<le> length xs"
proof (induction xs arbitrary: P)
  case Nil
  show ?case by (intro exI[of _ "store P"] exI[of _ 0] exI[of _ "[]"]) simp
next
  case (Cons x xs)
  obtain d k errs es where
    r: "retry_loop E x 0 P = P\<lparr>store := d, insertedCount := insertedCount P + k,
         errorRows := errorRows P @ errs, effects := effects P @ es\<rparr>"
    and f: "flushes es = []" and k: "k + length errs \<le> 1"
    using retry_loop_shape[of E x 0 P] by blast
  let ?P1 = "retry_loop E x 0 P"
  obtain d' k' errs' es' where
    r': "commit_all E xs ?P1 = ?P1\<lparr>store := d', insertedCount := insertedCount ?P1 + k',
         errorRows := errorRows ?P1 @ errs', effects := effects ?P1 @ es'\<rparr>"
    and f': "flushes es' = []" and k': "k' + length errs' \<le> length xs"
    using Cons.IH[of ?P1] by blast
  show ?case using r f k r' f' k'
    by (intro exI[of _ d'] exI[of _ "k + k'"] exI[of _ "errs @ errs'"] exI[of _ "es @ es'"])
       (simp add: flushes_append)
qed

lemma retry_loop_frame:
  "\<exists>d k errs es. \<forall>Q. store Q = store (P :: ('m, 'db) processor) \<longrightarrow>
      retry_loop (E :: ('m, 'db) env) x r Q =
        Q\<lparr>store := d, insertedCount := insertedCount Q + k,
          errorRows := errorRows Q @ errs, effects := effects Q @ es\<rparr>"
proof (induction E x r P rule: retry_loop.induct)
  case (1 E item retries P)
  show ?case
  proof (cases "retries < MAX_RETRIES")
    case False
    then have "\<And>Q. retry_loop E item retries Q = Q" by (simp add: retry_loop.simps)
    then show ?thesis
      by (intro exI[of _ "store P"] exI[of _ 0] exI[of _ "[]"]) simp
  next
    case True
    obtain out d where u: "upsert E (store P) item = (out, d)"
      by (cases "upsert E (store P) item")
    show ?thesis
    proof (cases out)
      case None
      have "\<And>Q. store Q = store P \<Longrightarrow> retry_loop E item retries Q =
          Q\<lparr>store := d, insertedCount := insertedCount Q + 1,
               effects := effects Q @ [Upsert (item_id E item) None]\<rparr>"
        using True u None by (subst retry_loop.simps) simp
      then show ?thesis
        by (intro exI[of _ d] exI[of _ 1] exI[of _ "[]"]
              exI[of _ "[Upsert (item_id E item) None]"]) simp
    next
      case (Some msg)
      show ?thesis
      proof (cases "retries + 1 \<ge> MAX_RETRIES")
        case last: True
        let ?f = "\<lambda>Q. Q\<lparr>store := d, effects := effects Q @ [Upsert (item_id E item) (Some msg)],
                errorRows := errorRows Q @ [\<lparr>row = - 1, error = RecordFailed (item_id E item) msg\<rparr>]\<rparr>"
        have "\<And>Q. store Q = store P \<Longrightarrow> retry_loop E item retries Q = ?f Q"
        proof -
          fix Q :: "('m, 'db) processor" assume s: "store Q = store P"
          have "retry_loop E item retries Q = retry_loop E item (retries + 1) (?f Q)"
            using True u Some last s by (subst retry_loop.simps) (simp add: Let_def)
          also have "\<dots> = ?f Q" using last by (subst retry_loop.simps) simp
          finally show "retry_loop E item retries Q = ?f Q" .
        qed
        then show ?thesis
          by (intro exI[of _ d] exI[of _ 0]
                exI[of _ "[\<lparr>row = - 1, error = RecordFailed (item_id E item) msg\<rparr>]"]
                exI[of _ "[Upsert (item_id E item) (Some msg)]"]) simp
      next
        case notlast: False
        let ?f = "\<lambda>Q. Q\<lparr>store := d, effects := effects Q @
                   [Upsert (item_id E item) (Some msg)] @ [Sleep (500 * (retries + 1))]\<rparr>"
        from "1.IH"(2)[OF True u[symmetric, unfolded Some] refl refl notlast]
        obtain d' k errs es where
          r: "\<And>Q'. store Q' = d \<Longrightarrow> retry_loop E item (retries + 1) Q' =
               Q'\<lparr>store := d', insertedCount := insertedCount Q' + k,
                    errorRows := errorRows Q' @ errs, effects := effects Q' @ es\<rparr>"
          by (auto simp: Let_def)
        have "\<And>Q. store Q = store P \<Longrightarrow> retry_loop E item retries Q =
            Q\<lparr>store := d', insertedCount := insertedCount Q + k,
              errorRows := errorRows Q @ errs,
              effects := effects Q @ Upsert (item_id E item) (Some msg) #
                 Sleep (500 * (retries + 1)) # es\<rparr>"
        proof -
          fix Q :: "('m, 'db) processor" assume s: "store Q = store P"
          have "retry_loop E item retries Q = retry_loop E item (retries + 1) (?f Q)"
            using True u Some notlast s by (subst retry_loop.simps) (simp add: Let_def)
          also have "\<dots> = (?f Q)\<lparr>store := d', insertedCount := insertedCount (?f Q) + k,
                    errorRows := errorRows (?f Q) @ errs, effects := effects (?f Q) @ es\<rparr>"
            by (rule r) simp
          finally show "retry_loop E item retries Q =
            Q\<lparr>store := d', insertedCount := insertedCount Q + k,
              errorRows := errorRows Q @ errs,
              effects := effects Q @ Upsert (item_id E item) (Some msg) #
                 Sleep (500 * (retries + 1)) # es\<rparr>" by simp
        qed
        then show ?thesis
          by (intro exI[of _ d'] exI[of _ k] exI[of _ errs]
                exI[of _ "Upsert (item_id E item) (Some msg) # Sleep (500 * (retries + 1)) # es"])
             simp
      qed
    qed
  qed
qed

lemma retry_loop_batchToProcess:
  "retry_loop E x r (P\<lparr>batchToProcess := b\<rparr>) = (retry_loop E x r P)\<lparr>batchToProcess := b\<rparr>"
proof -
  obtain d k errs es where
    f: "\<And>Q. store Q = store P \<Longrightarrow> retry_loop E x r Q =
        Q\<lparr>store := d, insertedCount := insertedCount Q + k,
          errorRows := errorRows Q @ errs, effects := effects Q @ es\<rparr>"
    using retry_loop_frame[of P E x r] by blast
  show ?thesis by (simp add: f[of P] f[of "P\<lparr>batchToProcess := b\<rparr>"])
qed

lemma commit_all_batchToProcess:
  "commit_all E xs (P\<lparr>batchToProcess := b\<rparr>) = (commit_all E xs P)\<lparr>batchToProcess := b\<rparr>"
  by (induction xs arbitrary: P) (simp_all add: retry_loop_batchToProcess)

lemma complete_batchToProcess: "complete (P\<lparr>batchToProcess := b\<rparr>) = complete P"
  by (simp add: complete_def)

lemma retry_loop_isProcessing: "isProcessing (retry_loop E x r P) = isProcessing P"
  using retry_loop_shape[of E x r P] by (elim exE conjE) simp

text \<open>Carrying the running call through to its end is the same as committing its
  records one event at a time.\<close>

lemma settle_by_commits:
  "isProcessing P \<Longrightarrow> batchToProcess P \<noteq> [] \<Longrightarrow>
   (commit_next E ^^ length (batchToProcess P)) P = settle E P"
proof (induction "batchToProcess P" arbitrary: P)
  case Nil
  then show ?case by simp
next
  case (Cons x rest)
  let ?P1 = "(retry_loop E x 0 P)\<lparr>batchToProcess := rest\<rparr>"
  have b: "batchToProcess P = x # rest" using Cons.hyps(2) by simp
  have st: "settle E P = complete (commit_all E rest (retry_loop E x 0 P))"
    using Cons.prems(1) b by (simp add: settle_def)
  show ?case
  proof (cases "rest = []")
    case True
    have "commit_next E P = complete ?P1"
      using Cons.prems(1) b True by (simp add: commit_next_def Let_def retry_loop_batchToProcess)
    then show ?thesis using b True st by (simp add: complete_batchToProcess)
  next
    case False
    have cn: "commit_next E P = ?P1"
      using Cons.prems(1) b False by (simp add: commit_next_def Let_def retry_loop_batchToProcess)
    have p1: "isProcessing ?P1" "batchToProcess ?P1 = rest"
      using Cons.prems(1) by (simp_all add: retry_loop_isProcessing)
    have "rest = batchToProcess ?P1" by simp
    from Cons.hyps(1)[OF this p1(1)] False
    have "(commit_next E ^^ length rest) ?P1 = settle E ?P1" by simp
    also have "\<dots> = complete (commit_all E rest ?P1)" using p1 by (simp add: settle_def)
    also have "\<dots> = settle E P"
      by (simp add: st commit_all_batchToProcess complete_batchToProcess)
    finally show ?thesis using b cn by (simp add: funpow_swap1)
  qed
qed

text \<open>
  C2.  Each record of a batch gets at least one and at most three upsert attempts.
  After the first failed attempt the committer waits 500 ms, after the second 1000 ms.
  A record whose first two attempts fail and whose third succeeds adds one to the
  inserted count and adds no error row; a record whose three attempts fail adds exactly
  one error row, with row number -1, the record's identifier and the message of the
  third failure, and leaves the inserted count as it was.  In both cases the loop goes
  on with the remaining records of the batch, and at the end of the call the committed
  count grows by the inserted count.
\<close>

theorem retry_policy:
  "(upsert E (store P) x = (Some m1, d1) \<and> upsert E d1 x = (Some m2, d2)
      \<and> upsert E d2 x = (None, d3) \<longrightarrow>
      retry_loop E x 0 P =
        P\<lparr>store := d3, insertedCount := insertedCount P + 1,
          effects := effects P @
            [Upsert (item_id E x) (Some m1), Sleep 500,
             Upsert (item_id E x) (Some m2), Sleep 1000, Upsert (item_id E x) None]\<rparr>)
   \<and> (upsert E (store P) x = (Some m1, d1) \<and> upsert E d1 x = (Some m2, d2)
      \<and> upsert E d2 x = (Some m3, d3) \<longrightarrow>
      retry_loop E x 0 P =
        P\<lparr>store := d3,
          errorRows := errorRows P @ [\<lparr>row = - 1, error = RecordFailed (item_id E x) m3\<rparr>],
          effects := effects P @
            [Upsert (item_id E x) (Some m1), Sleep 500,
             Upsert (item_id E x) (Some m2), Sleep 1000, Upsert (item_id E x) (Some m3)]\<rparr>)
   \<and> commit_all E (x # rest) P = commit_all E rest (retry_loop E x 0 P)
   \<and> upserts (effects P) + 1 \<le> upserts (effects (retry_loop E x 0 P))
   \<and> upserts (effects (retry_loop E x 0 P)) \<le> upserts (effects P) + 3
   \<and> (isProcessing P \<longrightarrow>
        processedCount (settle E P) =
          processedCount P + insertedCount (commit_all E (batchToProcess P) P))"
proof -
  obtain d k errs es where
    r: "retry_loop E x 0 P = P\<lparr>store := d, insertedCount := insertedCount P + k,
          errorRows := errorRows P @ errs, effects := effects P @ es\<rparr>"
    and n: "upserts es \<le> MAX_RETRIES - 0" "0 < MAX_RETRIES \<longrightarrow> 1 \<le> upserts es"
    using retry_loop_shape[of E x 0 P] by (elim exE conjE)
  have bounds: "upserts (effects P) + 1 \<le> upserts (effects (retry_loop E x 0 P))"
    "upserts (effects (retry_loop E x 0 P)) \<le> upserts (effects P) + 3"
    using r n by (simp_all add: upserts_append MAX_RETRIES_def)
  obtain d' k' errs' es' where
    c: "commit_all E (batchToProcess P) P = P\<lparr>store := d', insertedCount := insertedCount P + k',
          errorRows := errorRows P @ errs', effects := effects P @ es'\<rparr>"
    using commit_all_shape[of E "batchToProcess P" P] by blast
  have count: "isProcessing P \<longrightarrow>
      processedCount (settle E P) =
        processedCount P + insertedCount (commit_all E (batchToProcess P) P)"
    by (simp add: settle_def complete_def c)
  show ?thesis using bounds count
    by (simp add: retry_loop.simps MAX_RETRIES_def)
qed

theorem retry_policy_witness:
  "retry_loop flaky_env ''ok'' 0 fresh =
     fresh\<lparr>store := 3, insertedCount := 1,
       effects := [Upsert ''ok'' (Some ''busy''), Sleep 500,
                   Upsert ''ok'' (Some ''busy''), Sleep 1000, Upsert ''ok'' None]\<rparr>
   \<and> retry_loop flaky_env ''bad'' 0 fresh =
     fresh\<lparr>store := 3,
       errorRows := [\<lparr>row = - 1, error = RecordFailed ''bad'' ''boom''\<rparr>],
       effects := [Upsert ''bad'' (Some ''boom''), Sleep 500,
                   Upsert ''bad'' (Some ''boom''), Sleep 1000, Upsert ''bad'' (Some ''boom'')]\<rparr>
   \<and> processedCount
        (settle flaky_env (start_flush (fresh\<lparr>currentBatch := [''bad'', ''ok'']\<rparr>))) = 1"
proof -
  have ok: "upsert flaky_env (store fresh) ''ok'' = (Some ''busy'', 1)
      \<and> upsert flaky_env 1 ''ok'' = (Some ''busy'', 2) \<and> upsert flaky_env 2 ''ok'' = (None, 3)"
    by (simp add: flaky_env_def init_def fresh_def)
  have bad: "upsert flaky_env (store fresh) ''bad'' = (Some ''boom'', 1)
      \<and> upsert flaky_env 1 ''bad'' = (Some ''boom'', 2)
      \<and> upsert flaky_env 2 ''bad'' = (Some ''boom'', 3)"
    by (simp add: flaky_env_def init_def fresh_def)
  have a: "retry_loop flaky_env ''ok'' 0 fresh =
     fresh\<lparr>store := 3, insertedCount := insertedCount fresh + 1,
       effects := effects fresh @
            [Upsert (item_id flaky_env ''ok'') (Some ''busy''), Sleep 500,
             Upsert (item_id flaky_env ''ok'') (Some ''busy''), Sleep 1000,
             Upsert (item_id flaky_env ''ok'') None]\<rparr>"
    by (rule mp[OF retry_policy[of flaky_env fresh "''ok''" "''busy''" 1 "''busy''" 2 3,
          THEN conjunct1] ok])
  have b: "retry_loop flaky_env ''bad'' 0 fresh =
     fresh\<lparr>store := 3,
       errorRows := errorRows fresh @
          [\<lparr>row = - 1, error = RecordFailed (item_id flaky_env ''bad'') ''boom''\<rparr>],
       effects := effects fresh @
            [Upsert (item_id flaky_env ''bad'') (Some ''boom''), Sleep 500,
             Upsert (item_id flaky_env ''bad'') (Some ''boom''), Sleep 1000,
             Upsert (item_id flaky_env ''bad'') (Some ''boom'')]\<rparr>"
    by (rule mp[OF retry_policy[of flaky_env fresh "''bad''" "''boom''" 1 "''boom''" 2 3
          "''boom''", THEN conjunct2, THEN conjunct1] bad])
  have run: "isProcessing (start_flush (fresh\<lparr>currentBatch := [''bad'', ''ok'']\<rparr>))"
    by (simp add: start_flush_def)
  have c: "processedCount (settle flaky_env (start_flush (fresh\<lparr>currentBatch := [''bad'', ''ok'']\<rparr>))) =
      processedCount (start_flush (fresh\<lparr>currentBatch := [''bad'', ''ok'']\<rparr>)) +
      insertedCount (commit_all flaky_env
        (batchToProcess (start_flush (fresh\<lparr>currentBatch := [''bad'', ''ok'']\<rparr>)))
        (start_flush (fresh\<lparr>currentBatch := [''bad'', ''ok'']\<rparr>)))"
    by (rule mp[OF retry_policy[of flaky_env
          "start_flush (fresh\<lparr>currentBatch := [''bad'', ''ok'']\<rparr>)" "''bad''" "''boom''" 1
          "''boom''" 2 3 "''boom''" "[]", THEN conjunct2, THEN conjunct2, THEN conjunct2,
          THEN conjunct2, THEN conjunct2] run])
  have d: "processedCount (settle flaky_env (start_flush (fresh\<lparr>currentBatch := [''bad'', ''ok'']\<rparr>))) = 1"
    unfolding c
    by (simp add: start_flush_def fresh_def init_def flaky_env_def retry_loop.simps
          MAX_RETRIES_def Let_def)
  show ?thesis
    unfolding a b using d by (simp add: init_def fresh_def flaky_env_def)
qed

section \<open>Properties of the pipeline\<close>

subsection \<open>A missing required field changes only the error rows\<close>

lemma retry_loop_differs:
  "differs_by_errors k A B \<Longrightarrow>
   differs_by_errors k (retry_loop E x r A) (retry_loop E x r B)"
proof (induction E x r A arbitrary: B rule: retry_loop.induct)
  case (1 E item retries P)
  note d = "1.prems"
  then have st: "store B = store P" by (simp add: differs_by_errors_def)
  show ?case
  proof (cases "retries < MAX_RETRIES")
    case False
    then show ?thesis using d
      by (simp add: retry_loop.simps[of E item retries])
  next
    case True
    obtain out d' where u: "upsert E (store P) item = (out, d')"
      by (cases "upsert E (store P) item")
    show ?thesis
    proof (cases out)
      case None
      with True u st d show ?thesis
        by (simp add: retry_loop.simps[of E item retries] differs_by_errors_def)
    next
      case (Some msg)
      show ?thesis
      proof (cases "retries + 1 \<ge> MAX_RETRIES")
        case last: True
        let ?f = "\<lambda>Q. Q\<lparr>store := d', effects := effects Q @ [Upsert (item_id E item) (Some msg)],
                errorRows := errorRows Q @ [\<lparr>row = - 1, error = RecordFailed (item_id E item) msg\<rparr>]\<rparr>"
        have uA: "retry_loop E item retries P = retry_loop E item (retries + 1) (?f P)"
          using True u Some last by (subst retry_loop.simps) (simp add: Let_def)
        have uB: "retry_loop E item retries B = retry_loop E item (retries + 1) (?f B)"
          using True u Some last st by (subst retry_loop.simps) (simp add: Let_def)
        have "differs_by_errors k (?f P) (?f B)"
          using d by (simp add: differs_by_errors_def)
        from "1.IH"(1)[OF True u[symmetric, unfolded Some] refl refl last, of "?f B"] this
        show ?thesis unfolding uA uB by (simp add: Let_def)
      next
        case notlast: False
        let ?f = "\<lambda>Q. Q\<lparr>store := d', effects := effects Q @ [Upsert (item_id E item) (Some msg)] @ [Sleep (500 * (retries + 1))]\<rparr>"
        have uA: "retry_loop E item retries P = retry_loop E item (retries + 1) (?f P)"
          using True u Some notlast by (subst retry_loop.simps) (simp add: Let_def)
        have uB: "retry_loop E item retries B = retry_loop E item (retries + 1) (?f B)"
          using True u Some notlast st by (subst retry_loop.simps) (simp add: Let_def)
        have "differs_by_errors k (?f P) (?f B)"
          using d by (simp add: differs_by_errors_def)
        from "1.IH"(2)[OF True u[symmetric, unfolded Some] refl refl notlast, of "?f B"] this
        show ?thesis unfolding uA uB by (simp add: Let_def)
      qed
    qed
  qed
qed

lemma commit_all_differs:
  "differs_by_errors k A B \<Longrightarrow>
   differs_by_errors k (commit_all E xs A) (commit_all E xs B)"
  by (induction xs arbitrary: A B) (simp_all add: retry_loop_differs)

lemma complete_differs:
  "differs_by_errors k A B \<Longrightarrow> differs_by_errors k (complete A) (complete B)"
  by (simp add: differs_by_errors_def complete_def)

lemma start_flush_differs:
  "differs_by_errors k A B \<Longrightarrow> differs_by_errors k (start_flush A) (start_flush B)"
  by (simp add: differs_by_errors_def start_flush_def)

lemma processBatch_differs:
  "differs_by_errors k A B \<Longrightarrow> differs_by_errors k (processBatch A) (processBatch B)"
  by (simp add: differs_by_errors_def processBatch_def start_flush_def)

lemma settle_differs:
  "differs_by_errors k A B \<Longrightarrow> differs_by_errors k (settle E A) (settle E B)"
proof -
  assume d: "differs_by_errors k A B"
  then have eq: "isProcessing A = isProcessing B" "batchToProcess A = batchToProcess B"
    by (simp_all add: differs_by_errors_def)
  show ?thesis
    using d by (simp add: settle_def eq complete_differs commit_all_differs)
qed

lemma commit_next_differs:
  "differs_by_errors k A B \<Longrightarrow> differs_by_errors k (commit_next E A) (commit_next E B)"
proof -
  assume d: "differs_by_errors k A B"
  then have eq: "isProcessing A = isProcessing B" "batchToProcess A = batchToProcess B"
    by (simp_all add: differs_by_errors_def)
  have upd: "\<And>rest. differs_by_errors k (A\<lparr>batchToProcess := rest\<rparr>) (B\<lparr>batchToProcess := rest\<rparr>)"
    using d by (simp add: differs_by_errors_def)
  show ?thesis
    using d by (auto simp: commit_next_def eq Let_def complete_differs retry_loop_differs upd
        split: list.splits)
qed

lemma wake_differs:
  "differs_by_errors k A B \<Longrightarrow> differs_by_errors k (wake A) (wake B)"
  by (simp add: differs_by_errors_def wake_def start_flush_def)

lemma transform_differs:
  "differs_by_errors k A B \<Longrightarrow> differs_by_errors k (transform E r A) (transform E r B)"
  by (auto simp: differs_by_errors_def transform_def Let_def processBatch_def start_flush_def
      split: sum.splits)

lemma step_differs:
  "differs_by_errors k A B \<Longrightarrow> differs_by_errors k (step E e A) (step E e B)"
  by (cases e) (simp_all add: transform_differs commit_next_differs settle_differs wake_differs)

lemma run_differs:
  "differs_by_errors k A B \<Longrightarrow> differs_by_errors k (run E evs A) (run E evs B)"
  by (induction evs arbitrary: A B) (simp_all add: step_differs)

lemma finish_differs:
  "differs_by_errors k A B \<Longrightarrow> differs_by_errors k (finish E A) (finish E B)"
proof -
  assume d: "differs_by_errors k A B"
  then have eq: "currentBatch A = currentBatch B" by (simp add: differs_by_errors_def)
  show ?thesis using d
    by (simp add: finish_def eq settle_differs start_flush_differs)
qed

lemma run_append: "run E (a @ b) P = run E b (run E a P)"
  by (induction a arbitrary: P) simp_all

lemma transform_missing:
  "falsy (r ''id'') \<or> falsy (r ''title'') \<Longrightarrow>
   transform E r P =
     P\<lparr>rowNumber := rowNumber P + 1,
       errorRows := errorRows P @ [\<lparr>row = int (rowNumber P + 1), error = MissingRequired\<rparr>]\<rparr>"
  by (simp add: transform_def Let_def)


lemma settle_fields:
  "\<not> isProcessing (settle E P)"
  "currentBatch (settle E P) = currentBatch P"
  "flushes (effects (settle E P)) = flushes (effects P)"
  "processedCount P \<le> processedCount (settle E P)"
proof -
  obtain d k errs es where
    c: "commit_all E (batchToProcess P) P = P\<lparr>store := d, insertedCount := insertedCount P + k,
          errorRows := errorRows P @ errs, effects := effects P @ es\<rparr>"
    and f: "flushes es = []"
    using commit_all_shape[of E "batchToProcess P" P] by (elim exE conjE)
  show "\<not> isProcessing (settle E P)" "currentBatch (settle E P) = currentBatch P"
    "flushes (effects (settle E P)) = flushes (effects P)"
    "processedCount P \<le> processedCount (settle E P)"
    by (simp_all add: settle_def complete_def c f flushes_append)
qed

lemma start_flush_fields:
  "\<not> isProcessing P \<Longrightarrow> currentBatch (start_flush P) = []"
  "flushes (effects (start_flush P)) =
     flushes (effects P) @ (if currentBatch P = [] then [] else [length (currentBatch P)])"
  "processedCount (start_flush P) = processedCount P"
  by (simp_all add: start_flush_def flushes_append)

lemma finish_fields:
  "\<not> isProcessing (finish E P)"
  "currentBatch (finish E P) = []"
  "flushes (effects (finish E P)) =
     flushes (effects P) @ (if currentBatch P = [] then [] else [length (currentBatch P)])"
  "processedCount P \<le> processedCount (finish E P)"
proof -
  show "\<not> isProcessing (finish E P)"
    by (simp add: finish_def Let_def settle_fields)
  show "currentBatch (finish E P) = []"
    by (simp add: finish_def Let_def settle_fields start_flush_fields)
  show "flushes (effects (finish E P)) =
     flushes (effects P) @ (if currentBatch P = [] then [] else [length (currentBatch P)])"
    by (simp add: finish_def Let_def settle_fields start_flush_fields)
  have "processedCount P \<le> processedCount (settle E P)" by (rule settle_fields)
  also have "\<dots> = processedCount (start_flush (settle E P))" by (simp add: start_flush_fields)
  also have "\<dots> \<le> processedCount (settle E (start_flush (settle E P)))" by (rule settle_fields)
  also have "\<dots> \<le> processedCount (settle E (settle E (start_flush (settle E P))))"
    by (rule settle_fields)
  finally have a: "processedCount P \<le> processedCount (settle E (settle E (start_flush (settle E P))))" .
  have b: "processedCount P \<le> processedCount (settle E P)" by (rule settle_fields)
  show "processedCount P \<le> processedCount (finish E P)"
    using a b by (simp add: finish_def Let_def)
qed

lemma transform_valid_idle:
  assumes "valid_row E r" "\<not> isProcessing P"
  shows "if batchSize E \<le> int (length (currentBatch P) + 1)
         then isProcessing (transform E r P) \<and> currentBatch (transform E r P) = []
              \<and> flushes (effects (transform E r P)) =
                  flushes (effects P) @ [length (currentBatch P) + 1]
         else \<not> isProcessing (transform E r P)
              \<and> length (currentBatch (transform E r P)) = length (currentBatch P) + 1
              \<and> flushes (effects (transform E r P)) = flushes (effects P)"
  using assms
  by (auto simp: valid_row_def transform_def Let_def processBatch_def start_flush_def
      flushes_append split: sum.splits)

lemma transform_valid_busy:
  assumes "valid_row E r" "isProcessing P"
  shows "isProcessing (transform E r P)
         \<and> length (currentBatch (transform E r P)) = length (currentBatch P) + 1
         \<and> flushes (effects (transform E r P)) = flushes (effects P)"
  using assms
  by (auto simp: valid_row_def transform_def Let_def processBatch_def split: sum.splits)

lemma sequential_Cons: "sequential (r # rows) = Row r # Settle # sequential rows"
  by (simp add: sequential_def)

lemma run_sequential:
  assumes "\<forall>r\<in>set rows. valid_row E r" "\<not> isProcessing P" "batchSize E = int bs"
    "length (currentBatch P) < bs"
  shows "\<not> isProcessing (run E (sequential rows) P)
     \<and> length (currentBatch (run E (sequential rows) P)) =
         (length (currentBatch P) + length rows) mod bs
     \<and> flushes (effects (run E (sequential rows) P)) =
         flushes (effects P) @ replicate ((length (currentBatch P) + length rows) div bs) bs"
  using assms
proof (induction rows arbitrary: P)
  case Nil
  then show ?case by (simp add: sequential_def)
next
  case (Cons r rows)
  let ?T = "transform E r P"
  let ?P1 = "settle E ?T"
  have v: "valid_row E r" and vs: "\<forall>r\<in>set rows. valid_row E r" using Cons.prems(1) by simp_all
  have idle1: "\<not> isProcessing ?P1" by (rule settle_fields)
  have run: "run E (sequential (r # rows)) P = run E (sequential rows) ?P1"
    by (simp add: sequential_Cons)
  note t = transform_valid_idle[OF v Cons.prems(2)]
  show ?case
  proof (cases "length (currentBatch P) + 1 = bs")
    case True
    then have "batchSize E \<le> int (length (currentBatch P) + 1)" using Cons.prems(3) by simp
    with t have cb: "currentBatch ?P1 = []"
      and fl: "flushes (effects ?P1) = flushes (effects P) @ [bs]"
      using True by (simp_all add: settle_fields)
    have len: "length (currentBatch ?P1) < bs" using cb True by simp
    have pos: "0 < bs" using True by simp
    have e: "length (currentBatch P) + length (r # rows) = bs + length rows"
      using True by simp
    have m: "(bs + length rows) mod bs = length rows mod bs" by simp
    have dv: "(bs + length rows) div bs = Suc (length rows div bs)" using pos by simp
    from Cons.IH[OF vs idle1 Cons.prems(3) len]
    show ?thesis unfolding run e m dv using cb fl by simp
  next
    case False
    with Cons.prems(4) have lt: "length (currentBatch P) + 1 < bs" by simp
    then have "\<not> batchSize E \<le> int (length (currentBatch P) + 1)" using Cons.prems(3) by simp
    with t have cb: "length (currentBatch ?P1) = length (currentBatch P) + 1"
      and fl: "flushes (effects ?P1) = flushes (effects P)"
      by (simp_all add: settle_fields)
    have len: "length (currentBatch ?P1) < bs" using cb lt by simp
    from Cons.IH[OF vs idle1 Cons.prems(3) len]
    show ?thesis unfolding run using cb fl by simp
  qed
qed

lemma run_rows_busy:
  assumes "\<forall>r\<in>set rows. valid_row E r" "isProcessing P"
  shows "isProcessing (run E (map Row rows) P)
     \<and> length (currentBatch (run E (map Row rows) P)) = length (currentBatch P) + length rows
     \<and> flushes (effects (run E (map Row rows) P)) = flushes (effects P)"
  using assms
proof (induction rows arbitrary: P)
  case Nil
  then show ?case by simp
next
  case (Cons r rows)
  have v: "valid_row E r" and vs: "\<forall>r\<in>set rows. valid_row E r" using Cons.prems(1) by simp_all
  note t = transform_valid_busy[OF v Cons.prems(2)]
  from Cons.IH[OF vs conjunct1[OF t]] t show ?case by simp
qed

lemma run_rows_idle:
  assumes "\<forall>r\<in>set rows. valid_row E r" "\<not> isProcessing P" "batchSize E = int bs"
    "length (currentBatch P) + length rows < bs"
  shows "\<not> isProcessing (run E (map Row rows) P)
     \<and> length (currentBatch (run E (map Row rows) P)) = length (currentBatch P) + length rows
     \<and> flushes (effects (run E (map Row rows) P)) = flushes (effects P)"
  using assms
proof (induction rows arbitrary: P)
  case Nil
  then show ?case by simp
next
  case (Cons r rows)
  have v: "valid_row E r" and vs: "\<forall>r\<in>set rows. valid_row E r" using Cons.prems(1) by simp_all
  have "\<not> batchSize E \<le> int (length (currentBatch P) + 1)" using Cons.prems(3,4) by simp
  with transform_valid_idle[OF v Cons.prems(2)]
  have t: "\<not> isProcessing (transform E r P)"
    "length (currentBatch (transform E r P)) = length (currentBatch P) + 1"
    "flushes (effects (transform E r P)) = flushes (effects P)"
    by simp_all
  have len: "length (currentBatch (transform E r P)) + length rows < bs"
    using t(2) Cons.prems(4) by simp
  from Cons.IH[OF vs t(1) Cons.prems(3) len] t show ?case by simp
qed

lemma run_rows_burst:
  assumes v: "\<forall>r\<in>set rows. valid_row E r" and bs: "batchSize E = int bs" "0 < bs"
    and n: "bs \<le> length rows"
  shows "isProcessing (run E (map Row rows) (init d))
     \<and> length (currentBatch (run E (map Row rows) (init d))) = length rows - bs
     \<and> flushes (effects (run E (map Row rows) (init d))) = [bs]"
proof -
  let ?pre = "take (bs - 1) rows" and ?r = "rows ! (bs - 1)" and ?post = "drop bs rows"
  have split: "rows = ?pre @ ?r # ?post"
    using id_take_nth_drop[of "bs - 1" rows] bs(2) n by simp
  have vpre: "\<forall>r\<in>set ?pre. valid_row E r" using v by (meson in_set_takeD)
  have vr: "valid_row E ?r" using v n bs(2) by simp
  have vpost: "\<forall>r\<in>set ?post. valid_row E r" using v by (meson in_set_dropD)
  let ?I = "init d :: ('a, 'b) processor"
  let ?P1 = "run E (map Row ?pre) ?I"
  have i0: "\<not> isProcessing ?I" "currentBatch ?I = []" "effects ?I = []"
    by (simp_all add: init_def)
  have l0: "length (currentBatch ?I) + length ?pre < bs" using i0 bs(2) n by simp
  from run_rows_idle[OF vpre i0(1) bs(1) l0]
  have p1: "\<not> isProcessing ?P1" "length (currentBatch ?P1) = bs - 1"
    "flushes (effects ?P1) = []"
    using i0 n by simp_all
  let ?P2 = "transform E ?r ?P1"
  have "batchSize E \<le> int (length (currentBatch ?P1) + 1)" using p1(2) bs by simp
  with transform_valid_idle[OF vr p1(1)]
  have p2: "isProcessing ?P2" "currentBatch ?P2 = []" "flushes (effects ?P2) = [bs]"
    using p1 bs(2) by simp_all
  have "run E (map Row rows) ?I = run E (map Row ?post) ?P2"
    by (subst split) (simp add: run_append)
  with run_rows_busy[OF vpost p2(1)] p2 n show ?thesis by simp
qed

text \<open>
  C4.  A row whose \<open>id\<close> or \<open>title\<close> is absent or empty makes the transformer add
  one error row carrying that row's number and nothing else: no record joins the
  batch and no commit starts.  Whatever events follow, the processor differs from the
  one that never saw the row only in its error rows and its row counter, so the same
  records are batched and committed; the summary of the import reports the same
  count and one more error.
\<close>

theorem missing_required_field:
  assumes "falsy (r ''id'') \<or> falsy (r ''title'')"
  shows "transform E r P =
           P\<lparr>rowNumber := rowNumber P + 1,
             errorRows := errorRows P @
               [\<lparr>row = int (rowNumber P + 1), error = MissingRequired\<rparr>]\<rparr>
     \<and> differs_by_errors 1 (run E post (transform E r P)) (run E post P)
     \<and> (case (processStream E (pre @ Row r # post) fin P0, processStream E (pre @ post) fin P0) of
          (Inr (s, A), Inr (s', B)) \<Rightarrow>
             count s = count s' \<and> errorCount s = errorCount s' + 1 \<and> differs_by_errors 1 A B
        | (Inl e, Inl e') \<Rightarrow> e = e'
        | _ \<Rightarrow> False)"
proof -
  have t: "\<And>P. transform E r P =
           P\<lparr>rowNumber := rowNumber P + 1,
             errorRows := errorRows P @
               [\<lparr>row = int (rowNumber P + 1), error = MissingRequired\<rparr>]\<rparr>"
    using assms by (rule transform_missing)
  have d0: "\<And>P. differs_by_errors 1 (transform E r P) P"
    by (simp add: t differs_by_errors_def)
  have d1: "\<And>P evs. differs_by_errors 1 (run E evs (transform E r P)) (run E evs P)"
    by (rule run_differs[OF d0])
  let ?A = "run E (pre @ Row r # post) P0" and ?B = "run E (pre @ post) P0"
  have dAB: "differs_by_errors 1 ?A ?B"
    using d1[of post "run E pre P0"] by (simp add: run_append)
  have dF: "differs_by_errors 1 (finish E ?A) (finish E ?B)"
    by (rule finish_differs[OF dAB])
  have pc: "processedCount ?A = processedCount ?B" using dAB by (simp add: differs_by_errors_def)
  have sm: "count (summarise (finish E ?A)) = count (summarise (finish E ?B))"
    "errorCount (summarise (finish E ?A)) = errorCount (summarise (finish E ?B)) + 1"
    using dF by (simp_all add: summarise_def differs_by_errors_def)
  have out: "(case (processStream E (pre @ Row r # post) fin P0, processStream E (pre @ post) fin P0) of
          (Inr (s, A), Inr (s', B)) \<Rightarrow>
             count s = count s' \<and> errorCount s = errorCount s' + 1 \<and> differs_by_errors 1 A B
        | (Inl e, Inl e') \<Rightarrow> e = e'
        | _ \<Rightarrow> False)"
    using dF sm pc by (cases fin) (simp_all add: processStream_def Let_def)
  show ?thesis using t[of P] d1[of post P] out by blast
qed

theorem missing_required_field_witness:
  "transform flaky_env (mk_row [] ''t'') fresh =
     fresh\<lparr>rowNumber := rowNumber fresh + 1,
       errorRows := errorRows fresh @
         [\<lparr>row = int (rowNumber fresh + 1), error = MissingRequired\<rparr>]\<rparr>
   \<and> differs_by_errors 1
       (run flaky_env [Row (mk_row ''a'' ''t'')] (transform flaky_env (mk_row [] ''t'') fresh))
       (run flaky_env [Row (mk_row ''a'' ''t'')] fresh)
   \<and> count (fst (projr (processStream flaky_env
         [Row (mk_row [] ''t''), Row (mk_row ''a'' ''t'')] Finished fresh))) =
       count (fst (projr (processStream flaky_env [Row (mk_row ''a'' ''t'')] Finished fresh)))
   \<and> errorCount (fst (projr (processStream flaky_env
         [Row (mk_row [] ''t''), Row (mk_row ''a'' ''t'')] Finished fresh))) =
       errorCount (fst (projr (processStream flaky_env [Row (mk_row ''a'' ''t'')] Finished fresh))) + 1"
proof -
  let ?bad = "mk_row [] ''t''" and ?a = "mk_row ''a'' ''t''"
  have h: "falsy (?bad ''id'') \<or> falsy (?bad ''title'')"
    by (simp add: falsy_def mk_row_def)
  note p = missing_required_field[OF h, of flaky_env fresh "[Row ?a]" "[]" "Finished" fresh]
  obtain s1 A1 where x1: "processStream flaky_env ([] @ Row ?bad # [Row ?a]) Finished fresh = Inr (s1, A1)"
    by (simp add: processStream_def Let_def)
  obtain s2 A2 where x2: "processStream flaky_env ([] @ [Row ?a]) Finished fresh = Inr (s2, A2)"
    by (simp add: processStream_def Let_def)
  from p have "count s1 = count s2 \<and> errorCount s1 = errorCount s2 + 1"
    unfolding x1 x2 by simp
  moreover have "processStream flaky_env [Row ?bad, Row ?a] Finished fresh = Inr (s1, A1)"
    using x1 by simp
  moreover have "processStream flaky_env [Row ?a] Finished fresh = Inr (s2, A2)"
    using x2 by simp
  ultimately have c: "count (fst (projr (processStream flaky_env [Row ?bad, Row ?a] Finished fresh))) =
       count (fst (projr (processStream flaky_env [Row ?a] Finished fresh)))
     \<and> errorCount (fst (projr (processStream flaky_env [Row ?bad, Row ?a] Finished fresh))) =
       errorCount (fst (projr (processStream flaky_env [Row ?a] Finished fresh))) + 1"
    by simp
  from p c show ?thesis by blast
qed

subsection \<open>Batch sizes\<close>

text \<open>
  C1.  As amended: when every commit started by a row has ended before the next row
  reaches the transformer, 2500 valid rows with batch size 1000 give exactly three
  batches, of 1000, 1000 and 500 records; the last 500 are below the threshold when
  the stream ends and are taken by the final call.
\<close>

theorem three_flushes_sequential:
  assumes "length rows = 2500" and "\<forall>r\<in>set rows. valid_row E r" and "batchSize E = 1000"
  shows "processStream E (sequential rows) Finished (init d) =
           Inr (summarise (finish E (run E (sequential rows) (init d))),
                finish E (run E (sequential rows) (init d)))
     \<and> flushes (effects (run E (sequential rows) (init d))) = [1000, 1000]
     \<and> length (currentBatch (run E (sequential rows) (init d))) = 500
     \<and> flushes (effects (finish E (run E (sequential rows) (init d)))) = [1000, 1000, 500]
     \<and> currentBatch (finish E (run E (sequential rows) (init d))) = []"
proof -
  let ?I = "init d :: ('a, 'b) processor"
  let ?P = "run E (sequential rows) ?I"
  have i0: "\<not> isProcessing ?I" "length (currentBatch ?I) < 1000" "effects ?I = []"
    "currentBatch ?I = []"
    by (simp_all add: init_def)
  have bs: "batchSize E = int 1000" using assms(3) by simp
  have m: "(length (currentBatch ?I) + length rows) mod 1000 = 500"
    and dv: "(length (currentBatch ?I) + length rows) div 1000 = 2"
    using assms(1) i0(4) by simp_all
  have rp: "replicate 2 (1000::nat) = [1000, 1000]" by (simp add: numeral_2_eq_2)
  from run_sequential[OF assms(2) i0(1) bs i0(2)]
  have p: "length (currentBatch ?P) = 500" "flushes (effects ?P) = [1000, 1000]"
    unfolding m dv rp i0(3) by simp_all
  have ne: "currentBatch ?P \<noteq> []" using p(1) by auto
  have f: "flushes (effects (finish E ?P)) = [1000, 1000, 500]"
    using p ne by (simp add: finish_fields)
  show ?thesis using p f
    by (simp add: processStream_def Let_def finish_fields)
qed

theorem three_flushes_sequential_witness:
  "flushes (effects (snd (projr (processStream steady_env
      (sequential (replicate 2500 (mk_row ''m'' ''t''))) Finished (init ()))))) =
      [1000, 1000, 500]"
proof -
  have len: "length (replicate 2500 (mk_row ''m'' ''t'')) = 2500" by simp
  have v: "\<forall>r\<in>set (replicate 2500 (mk_row ''m'' ''t'')). valid_row steady_env r"
    by (simp add: valid_row_def steady_env_def mk_row_def falsy_def)
  have b: "batchSize steady_env = 1000" by (simp add: steady_env_def)
  from three_flushes_sequential[OF len v b, of "()"] show ?thesis by simp
qed

text \<open>
  C1 as stated does not hold for every order of events.  When the 2500 rows reach the
  transformer while the first commit is still running, the rows after the first 1000
  accumulate and are taken together: two batches, of 1000 and 1500 records.
\<close>

theorem burst_two_flushes_counterexample:
  "flushes (effects (snd (projr (processStream steady_env
      (map Row (replicate 2500 (mk_row ''m'' ''t''))) Finished (init ()))))) = [1000, 1500]"
proof -
  let ?rows = "replicate 2500 (mk_row ''m'' ''t'')"
  have v: "\<forall>r\<in>set ?rows. valid_row steady_env r"
    by (simp add: valid_row_def steady_env_def mk_row_def falsy_def)
  have b: "batchSize steady_env = int 1000" by (simp add: steady_env_def)
  have n: "1000 \<le> length ?rows" by simp
  from run_rows_burst[OF v b _ n, of "()"]
  have p: "length (currentBatch (run steady_env (map Row ?rows) (init ()))) = 1500"
    "flushes (effects (run steady_env (map Row ?rows) (init ()))) = [1000]"
    by simp_all
  then have ne: "currentBatch (run steady_env (map Row ?rows) (init ())) \<noteq> []" by auto
  show ?thesis using p ne
    by (simp add: processStream_def Let_def finish_fields)
qed

subsection \<open>Premature end of the input\<close>

text \<open>
  Every record of a committed batch is sent to the storage at least once, and it ends
  either in the inserted count or in an error row.
\<close>

lemma retry_loop_account:
  "\<exists>d k errs es. retry_loop E x r P =
       P\<lparr>store := d, insertedCount := insertedCount P + k,
         errorRows := errorRows P @ errs, effects := effects P @ es\<rparr>
     \<and> flushes es = []
     \<and> (r < MAX_RETRIES \<longrightarrow>
          k + length errs = 1 \<and> (\<exists>res. Upsert (item_id E x) res \<in> set es))"
proof (induction E x r P rule: retry_loop.induct)
  case (1 E item retries P)
  show ?case
  proof (cases "retries < MAX_RETRIES")
    case False
    then have "retry_loop E item retries P = P" by (simp add: retry_loop.simps)
    then show ?thesis using False
      by (intro exI[of _ "store P"] exI[of _ 0] exI[of _ "[]"]) simp
  next
    case True
    obtain out d where u: "upsert E (store P) item = (out, d)" by (cases "upsert E (store P) item")
    show ?thesis
    proof (cases out)
      case None
      with True u have "retry_loop E item retries P =
          P\<lparr>store := d, insertedCount := insertedCount P + 1,
               effects := effects P @ [Upsert (item_id E item) None]\<rparr>"
        by (subst retry_loop.simps) simp
      then show ?thesis using True
        by (intro exI[of _ d] exI[of _ 1] exI[of _ "[]"] exI[of _ "[Upsert (item_id E item) None]"]) simp
    next
      case (Some msg)
      show ?thesis
      proof (cases "retries + 1 \<ge> MAX_RETRIES")
        case last: True
        let ?P1 = "P\<lparr>store := d, effects := effects P @ [Upsert (item_id E item) (Some msg)],
                errorRows := errorRows P @ [\<lparr>row = - 1, error = RecordFailed (item_id E item) msg\<rparr>]\<rparr>"
        have unf: "retry_loop E item retries P = retry_loop E item (retries + 1) ?P1"
          using True u Some last by (subst retry_loop.simps) (simp add: Let_def)
        have "retry_loop E item (retries + 1) ?P1 = ?P1"
          using last by (subst retry_loop.simps) simp
        with unf have "retry_loop E item retries P = ?P1" by simp
        then show ?thesis using True
          by (intro exI[of _ d] exI[of _ 0]
                exI[of _ "[\<lparr>row = - 1, error = RecordFailed (item_id E item) msg\<rparr>]"]
                exI[of _ "[Upsert (item_id E item) (Some msg)]"]) simp
      next
        case notlast: False
        let ?P1 = "P\<lparr>store := d, effects := effects P @ [Upsert (item_id E item) (Some msg)] @ [Sleep (500 * (retries + 1))]\<rparr>"
        have unf: "retry_loop E item retries P = retry_loop E item (retries + 1) ?P1"
          using True u Some notlast by (subst retry_loop.simps) (simp add: Let_def)
        have nl: "retries + 1 < MAX_RETRIES" using notlast by simp
        from "1.IH"(2)[OF True u[symmetric, unfolded Some] refl refl notlast]
        obtain d' k errs es where
          r: "retry_loop E item (retries + 1) ?P1 =
               ?P1\<lparr>store := d', insertedCount := insertedCount ?P1 + k,
                    errorRows := errorRows ?P1 @ errs, effects := effects ?P1 @ es\<rparr>"
          and f: "flushes es = []" and k: "k + length errs = 1"
          using nl by (auto simp: Let_def)
        show ?thesis using True f k unf r
          by (intro exI[of _ d'] exI[of _ k] exI[of _ errs]
                exI[of _ "Upsert (item_id E item) (Some msg) # Sleep (500 * (retries + 1)) # es"])
             (simp, blast)
      qed
    qed
  qed
qed

lemma commit_all_account:
  "\<exists>d k errs es. commit_all E xs P =
       P\<lparr>store := d, insertedCount := insertedCount P + k,
         errorRows := errorRows P @ errs, effects := effects P @ es\<rparr>
     \<and> flushes es = [] \<and> k + length errs = length xs
     \<and> (\<forall>m\<in>set xs. \<exists>res. Upsert (item_id E m) res \<in> set es)"
proof (induction xs arbitrary: P)
  case Nil
  show ?case by (intro exI[of _ "store P"] exI[of _ 0] exI[of _ "[]"]) simp
next
  case (Cons x xs)
  have lt: "0 < MAX_RETRIES" by (simp add: MAX_RETRIES_def)
  obtain d k errs es where
    r: "retry_loop E x 0 P = P\<lparr>store := d, insertedCount := insertedCount P + k,
         errorRows := errorRows P @ errs, effects := effects P @ es\<rparr>"
    and f: "flushes es = []" and k: "k + length errs = 1"
    and u: "\<exists>res. Upsert (item_id E x) res \<in> set es"
    using retry_loop_account[of E x 0 P] lt by blast
  let ?P1 = "retry_loop E x 0 P"
  obtain d' k' errs' es' where
    r': "commit_all E xs ?P1 = ?P1\<lparr>store := d', insertedCount := insertedCount ?P1 + k',
         errorRows := errorRows ?P1 @ errs', effects := effects ?P1 @ es'\<rparr>"
    and f': "flushes es' = []" and k': "k' + length errs' = length xs"
    and u': "\<forall>m\<in>set xs. \<exists>res. Upsert (item_id E m) res \<in> set es'"
    using Cons.IH[of ?P1] by blast
  have all: "\<forall>m\<in>set (x # xs). \<exists>res. Upsert (item_id E m) res \<in> set (es @ es')"
    using u u' by auto
  show ?case using r f k r' f' k' all
    by (intro exI[of _ d'] exI[of _ "k + k'"] exI[of _ "errs @ errs'"] exI[of _ "es @ es'"])
       (simp add: flushes_append)
qed

text \<open>What carrying the running call to its end adds, and what the end of the
  pipeline adds.\<close>

lemma settle_account:
  "\<exists>es. effects (settle E P) = effects P @ es \<and> flushes es = []
     \<and> currentBatch (settle E P) = currentBatch P \<and> \<not> isProcessing (settle E P)
     \<and> (isProcessing P \<longrightarrow>
          (\<forall>m\<in>set (batchToProcess P). \<exists>res. Upsert (item_id E m) res \<in> set es)
          \<and> processedCount (settle E P) + length (errorRows (settle E P)) =
              processedCount P + length (errorRows P) + insertedCount P
                + length (batchToProcess P))
     \<and> (\<not> isProcessing P \<longrightarrow> settle E P = P)"
proof (cases "isProcessing P")
  case False
  then show ?thesis by (intro exI[of _ "[]"]) (simp add: settle_def)
next
  case True
  obtain d k errs es where
    c: "commit_all E (batchToProcess P) P = P\<lparr>store := d, insertedCount := insertedCount P + k,
          errorRows := errorRows P @ errs, effects := effects P @ es\<rparr>"
    and f: "flushes es = []" and k: "k + length errs = length (batchToProcess P)"
    and u: "\<forall>m\<in>set (batchToProcess P). \<exists>res. Upsert (item_id E m) res \<in> set es"
    using commit_all_account[of E "batchToProcess P" P] by (elim exE conjE)
  show ?thesis using True f k u
    by (intro exI[of _ es]) (simp add: settle_def complete_def c)
qed

lemma finish_account:
  "\<exists>es. effects (finish E P) = effects P @ es
     \<and> (\<forall>m\<in>set (currentBatch P). \<exists>res. Upsert (item_id E m) res \<in> set es)
     \<and> (isProcessing P \<longrightarrow>
          (\<forall>m\<in>set (batchToProcess P). \<exists>res. Upsert (item_id E m) res \<in> set es))
     \<and> processedCount (finish E P) + length (errorRows (finish E P)) =
          processedCount P + length (errorRows P) + length (currentBatch P)
            + (if isProcessing P then insertedCount P + length (batchToProcess P) else 0)"
proof -
  let ?P1 = "settle E P"
  obtain es1 where
    e1: "effects ?P1 = effects P @ es1" and c1: "currentBatch ?P1 = currentBatch P"
    and n1: "\<not> isProcessing ?P1"
    and r1: "isProcessing P \<longrightarrow>
          (\<forall>m\<in>set (batchToProcess P). \<exists>res. Upsert (item_id E m) res \<in> set es1)
          \<and> processedCount ?P1 + length (errorRows ?P1) =
              processedCount P + length (errorRows P) + insertedCount P
                + length (batchToProcess P)"
    and i1: "\<not> isProcessing P \<longrightarrow> ?P1 = P"
    using settle_account[of E P] by (elim exE conjE)
  have idem: "settle E ?P1 = ?P1" using n1 by (simp add: settle_def)
  have acc1: "processedCount ?P1 + length (errorRows ?P1) =
      processedCount P + length (errorRows P)
        + (if isProcessing P then insertedCount P + length (batchToProcess P) else 0)"
    using r1 i1 by (cases "isProcessing P") simp_all
  show ?thesis
  proof (cases "currentBatch P = []")
    case True
    then have "finish E P = ?P1" by (simp add: finish_def)
    then show ?thesis using True e1 r1 acc1 by (intro exI[of _ es1]) simp
  next
    case False
    let ?P2 = "start_flush ?P1"
    have p2: "isProcessing ?P2" "batchToProcess ?P2 = currentBatch P" "insertedCount ?P2 = 0"
      "effects ?P2 = effects P @ es1 @ [Flush (length (currentBatch P))]"
      "processedCount ?P2 = processedCount ?P1" "errorRows ?P2 = errorRows ?P1"
      using False c1 e1 by (simp_all add: start_flush_def)
    obtain es2 where
      e2: "effects (settle E ?P2) = effects ?P2 @ es2"
      and n2: "\<not> isProcessing (settle E ?P2)"
      and r2: "isProcessing ?P2 \<longrightarrow>
          (\<forall>m\<in>set (batchToProcess ?P2). \<exists>res. Upsert (item_id E m) res \<in> set es2)
          \<and> processedCount (settle E ?P2) + length (errorRows (settle E ?P2)) =
              processedCount ?P2 + length (errorRows ?P2) + insertedCount ?P2
                + length (batchToProcess ?P2)"
      using settle_account[of E ?P2] by (elim exE conjE)
    have fin: "finish E P = settle E ?P2"
      using False n2 by (simp add: finish_def Let_def settle_def[of E "settle E ?P2"])
    have u2: "\<forall>m\<in>set (currentBatch P). \<exists>res. Upsert (item_id E m) res \<in> set es2"
      using r2 p2 by simp
    have a2: "processedCount (settle E ?P2) + length (errorRows (settle E ?P2)) =
        processedCount ?P1 + length (errorRows ?P1) + length (currentBatch P)"
      using r2 p2 by simp
    show ?thesis unfolding fin using e2 p2(4) u2 r1 a2 acc1
      by (intro exI[of _ "es1 @ Flush (length (currentBatch P)) # es2"]) auto
  qed
qed


text \<open>
  C5.  As amended: when the pipeline is rejected with the premature-close code and
  the committed count is positive, \<open>processStream\<close> returns a summary.  The records
  accumulated so far are taken as one more batch and each of them is sent to the
  storage, as is each record still waiting in the running batch; nothing is left in
  the batch or in flight; every one of these records is counted in the summary,
  as committed or as an error; and the count of the summary is at least the count
  reached before the failure.  When the committed count is still zero, the rejection
  is rethrown unchanged.  The committed count is what the source tests: it grows only
  when a call of \<open>processBatch\<close> ends.
\<close>

theorem premature_close:
  "(0 < processedCount (run E evs P0) \<longrightarrow>
      processStream E evs (Aborted ''ERR_STREAM_PREMATURE_CLOSE'' msg) P0 =
        Inr (summarise (finish E (run E evs P0)), finish E (run E evs P0))
      \<and> currentBatch (finish E (run E evs P0)) = []
      \<and> \<not> isProcessing (finish E (run E evs P0))
      \<and> flushes (effects (finish E (run E evs P0))) =
          flushes (effects (run E evs P0)) @
            (if currentBatch (run E evs P0) = [] then []
             else [length (currentBatch (run E evs P0))])
      \<and> (\<exists>es. effects (finish E (run E evs P0)) = effects (run E evs P0) @ es
            \<and> (\<forall>m\<in>set (currentBatch (run E evs P0)).
                  \<exists>res. Upsert (item_id E m) res \<in> set es)
            \<and> (isProcessing (run E evs P0) \<longrightarrow>
                 (\<forall>m\<in>set (batchToProcess (run E evs P0)).
                    \<exists>res. Upsert (item_id E m) res \<in> set es)))
      \<and> count (summarise (finish E (run E evs P0)))
            + errorCount (summarise (finish E (run E evs P0))) =
          processedCount (run E evs P0) + length (errorRows (run E evs P0))
            + length (currentBatch (run E evs P0))
            + (if isProcessing (run E evs P0)
               then insertedCount (run E evs P0) + length (batchToProcess (run E evs P0))
               else 0)
      \<and> processedCount (run E evs P0) \<le> count (summarise (finish E (run E evs P0))))
   \<and> (processedCount (run E evs P0) = 0 \<longrightarrow>
      processStream E evs (Aborted code msg) P0 = Inl (code, msg))"
proof -
  let ?P = "run E evs P0"
  obtain es where
    e: "effects (finish E ?P) = effects ?P @ es"
    and u: "\<forall>m\<in>set (currentBatch ?P). \<exists>res. Upsert (item_id E m) res \<in> set es"
    and v: "isProcessing ?P \<longrightarrow>
          (\<forall>m\<in>set (batchToProcess ?P). \<exists>res. Upsert (item_id E m) res \<in> set es)"
    and a: "processedCount (finish E ?P) + length (errorRows (finish E ?P)) =
          processedCount ?P + length (errorRows ?P) + length (currentBatch ?P)
            + (if isProcessing ?P then insertedCount ?P + length (batchToProcess ?P) else 0)"
    using finish_account[of E ?P] by (elim exE conjE)
  have ex: "\<exists>es. effects (finish E ?P) = effects ?P @ es
            \<and> (\<forall>m\<in>set (currentBatch ?P). \<exists>res. Upsert (item_id E m) res \<in> set es)
            \<and> (isProcessing ?P \<longrightarrow>
                 (\<forall>m\<in>set (batchToProcess ?P). \<exists>res. Upsert (item_id E m) res \<in> set es))"
    using e u v by blast
  have cnt: "count (summarise (finish E ?P)) + errorCount (summarise (finish E ?P)) =
          processedCount ?P + length (errorRows ?P) + length (currentBatch ?P)
            + (if isProcessing ?P then insertedCount ?P + length (batchToProcess ?P) else 0)"
    using a by (simp add: summarise_def)
  have le: "processedCount ?P \<le> count (summarise (finish E ?P))"
    by (simp add: summarise_def finish_fields)
  have ret: "0 < processedCount ?P \<longrightarrow>
      processStream E evs (Aborted ''ERR_STREAM_PREMATURE_CLOSE'' msg) P0 =
        Inr (summarise (finish E ?P), finish E ?P)"
    by (simp add: processStream_def Let_def)
  have thr: "processedCount ?P = 0 \<longrightarrow>
      processStream E evs (Aborted code msg) P0 = Inl (code, msg)"
    by (simp add: processStream_def Let_def)
  have f1: "currentBatch (finish E ?P) = []" by (rule finish_fields)
  have f2: "\<not> isProcessing (finish E ?P)" by (rule finish_fields)
  have f3: "flushes (effects (finish E ?P)) =
          flushes (effects ?P) @
            (if currentBatch ?P = [] then [] else [length (currentBatch ?P)])"
    by (rule finish_fields)
  show ?thesis using ret f1 f2 f3 ex cnt le thr by blast
qed

theorem premature_close_witness:
  "count (fst (projr (processStream flaky_env
       [Row (mk_row ''a'' ''t''), Row (mk_row ''b'' ''t''), Settle, Row (mk_row ''c'' ''t'')]
       (Aborted ''ERR_STREAM_PREMATURE_CLOSE'' ''closed'') fresh))) = 3
   \<and> effects (snd (projr (processStream flaky_env
       [Row (mk_row ''a'' ''t''), Row (mk_row ''b'' ''t''), Settle, Row (mk_row ''c'' ''t'')]
       (Aborted ''ERR_STREAM_PREMATURE_CLOSE'' ''closed'') fresh))) =
     [Flush 2, Upsert ''a'' (Some ''busy''), Sleep 500, Upsert ''a'' (Some ''busy''),
      Sleep 1000, Upsert ''a'' None, Upsert ''b'' None, Flush 1, Upsert ''c'' None]
   \<and> processStream flaky_env [Row (mk_row ''a'' ''t'')]
       (Aborted ''ERR_STREAM_PREMATURE_CLOSE'' ''closed'') fresh =
     Inl (''ERR_STREAM_PREMATURE_CLOSE'', ''closed'')"
proof -
  let ?evs = "[Row (mk_row ''a'' ''t''), Row (mk_row ''b'' ''t''), Settle, Row (mk_row ''c'' ''t'')]"
  have ev: "run flaky_env ?evs fresh =
      fresh\<lparr>processedCount := 2, rowNumber := 3, currentBatch := [''c''], insertedCount := 2,
        store := 4,
        effects := [Flush 2, Upsert ''a'' (Some ''busy''), Sleep 500, Upsert ''a'' (Some ''busy''),
          Sleep 1000, Upsert ''a'' None, Upsert ''b'' None]\<rparr>"
    by (simp add: transform_def falsy_def mk_row_def fresh_def init_def flaky_env_def
          settle_def complete_def start_flush_def processBatch_def retry_loop.simps
          MAX_RETRIES_def Let_def)
  have h1: "0 < processedCount (run flaky_env ?evs fresh)" unfolding ev by simp
  have h2: "processedCount (run flaky_env [Row (mk_row ''a'' ''t'')] fresh) = 0"
    by (simp add: transform_def falsy_def mk_row_def fresh_def init_def flaky_env_def Let_def)
  have fin: "processedCount (finish flaky_env (run flaky_env ?evs fresh)) = 3"
    "effects (finish flaky_env (run flaky_env ?evs fresh)) =
       [Flush 2, Upsert ''a'' (Some ''busy''), Sleep 500, Upsert ''a'' (Some ''busy''),
        Sleep 1000, Upsert ''a'' None, Upsert ''b'' None, Flush 1, Upsert ''c'' None]"
    unfolding ev
    by (simp_all add: finish_def fresh_def init_def flaky_env_def
          settle_def complete_def start_flush_def retry_loop.simps MAX_RETRIES_def Let_def)
  have a: "processStream flaky_env ?evs (Aborted ''ERR_STREAM_PREMATURE_CLOSE'' ''closed'') fresh =
      Inr (summarise (finish flaky_env (run flaky_env ?evs fresh)),
           finish flaky_env (run flaky_env ?evs fresh))"
    using premature_close[of flaky_env ?evs fresh "''closed''", THEN conjunct1] h1 by blast
  have b: "processStream flaky_env [Row (mk_row ''a'' ''t'')]
       (Aborted ''ERR_STREAM_PREMATURE_CLOSE'' ''closed'') fresh =
     Inl (''ERR_STREAM_PREMATURE_CLOSE'', ''closed'')"
    using premature_close[of flaky_env "[Row (mk_row ''a'' ''t'')]" fresh "''closed''"
        "''ERR_STREAM_PREMATURE_CLOSE''", THEN conjunct2] h2 by blast
  show ?thesis unfolding a b by (simp add: fin summarise_def del: run.simps)
qed

text \<open>
  C5 as stated returns a summary as soon as one record has been committed.  With the
  batch size 2, two rows start a batch; when the stream breaks after the first of the
  two records has been accepted by the storage, the running call has not ended, the
  committed count is still zero, and the failure is rethrown.
\<close>

theorem premature_close_in_flight_counterexample:
  "effects (run flaky_env [Row (mk_row ''a'' ''t''), Row (mk_row ''b'' ''t''), Commit] warm) =
     [Flush 2, Upsert ''a'' None]
   \<and> processedCount (run flaky_env
        [Row (mk_row ''a'' ''t''), Row (mk_row ''b'' ''t''), Commit] warm) = 0
   \<and> processStream flaky_env [Row (mk_row ''a'' ''t''), Row (mk_row ''b'' ''t''), Commit]
       (Aborted ''ERR_STREAM_PREMATURE_CLOSE'' ''closed'') warm =
     Inl (''ERR_STREAM_PREMATURE_CLOSE'', ''closed'')"
  by (simp add: processStream_def transform_def falsy_def mk_row_def warm_def init_def
        flaky_env_def commit_next_def complete_def start_flush_def processBatch_def
        retry_loop.simps MAX_RETRIES_def Let_def)

subsection \<open>The success flag\<close>

text \<open>
  C10.  Whenever \<open>processStream\<close> returns a summary, the summary's \<open>success\<close> field is
  true, whatever the counts are; failure reaches the caller only as the rethrown
  error.
\<close>

theorem summary_success:
  "processStream E evs fin P0 = Inr (s, P) \<Longrightarrow> success s"
  by (auto simp: processStream_def summarise_def Let_def split: stream_end.splits if_splits)

theorem summary_success_witness:
  "success (fst (projr (processStream flaky_env
       [Row (mk_row [] ''t''), Row (mk_row ''bad'' ''t'')] Finished fresh)))
   \<and> count (fst (projr (processStream flaky_env
       [Row (mk_row [] ''t''), Row (mk_row ''bad'' ''t'')] Finished fresh))) = 0
   \<and> errorCount (fst (projr (processStream flaky_env
       [Row (mk_row [] ''t''), Row (mk_row ''bad'' ''t'')] Finished fresh))) = 2"
proof -
  let ?X = "processStream flaky_env [Row (mk_row [] ''t''), Row (mk_row ''bad'' ''t'')] Finished fresh"
  have "\<exists>s P. ?X = Inr (s, P)" by (simp add: processStream_def Let_def)
  then obtain s P where h: "?X = Inr (s, P)" by blast
  have "success s" by (rule summary_success[OF h])
  moreover have "count (fst (projr ?X)) = 0 \<and> errorCount (fst (projr ?X)) = 2"
    by (simp add: processStream_def finish_def settle_def start_flush_def transform_def
          falsy_def mk_row_def fresh_def init_def summarise_def flaky_env_def complete_def
          retry_loop.simps MAX_RETRIES_def Let_def processBatch_def)
  ultimately show ?thesis by (simp add: h)
qed

end
